theory Spec2Isabelle
  imports Main "HOL-Library.Multiset"
begin

section \<open>Data model of the hold'em table engine\<close>

text \<open>
  The engine keeps one mutable \<open>room\<close> object per table whose \<open>players\<close> array holds one
  mutable object per seated player.  A room and a player are records here; every function
  of the source that mutates a room takes the room and returns the new one.  Chip amounts
  are JavaScript numbers that only ever hold integers, so they are \<open>int\<close>.  A card is the
  two-character string of its rank and suit.  \<open>Array.prototype.pop\<close> on an empty array
  yields \<open>undefined\<close>, which the source would push like any card, so the cards of a hole
  hand or of the board are \<open>card option\<close> with \<open>None\<close> for \<open>undefined\<close>.

  Fields that only feed the user interface (\<open>name\<close>, \<open>lastAction\<close>, \<open>log\<close>,
  \<open>winnerInfo\<close>, the time stamps) are left out: no decision of the engine reads them.
\<close>

type_synonym card = string
type_synonym pid = string

datatype rstate = Lobby | Hand | Reveal | Showdown
datatype stage = Preflop | Flop | Turn | River

record player =
  pid :: pid
  seat :: nat
  stack :: int
  connected :: bool
  folded :: bool
  allIn :: bool
  betThisRound :: int
  committed :: int
  hole :: "card option list"
  hasActed :: bool
  bot :: bool

record room =
  hostId :: pid
  state :: rstate
  stage :: stage
  dealerSeat :: "nat option"
  smallBlind :: int
  bigBlind :: int
  pot :: int
  community :: "card option list"
  deck :: "card list"
  currentSeat :: "nat option"
  currentBet :: int
  minRaise :: int
  lastAggressorSeat :: "nat option"
  botTimer :: bool
  players :: "player list"

record sidepot =
  amount :: int
  eligible :: "pid list"

section \<open>Side pots\<close>

text \<open>
  \<open>[...new Set(xs)]\<close> keeps the first occurrence of every value, in order.
\<close>

definition uniq :: "'a list \<Rightarrow> 'a list" where
  "uniq xs = rev (remdups (rev xs))"

text \<open>
  The loop of \<open>buildSidePots\<close> over the sorted levels, with the running \<open>prev\<close>.
\<close>

fun potLoop :: "player list \<Rightarrow> int \<Rightarrow> int list \<Rightarrow> sidepot list" where
  "potLoop contrib prev [] = []"
| "potLoop contrib prev (level # levels) =
     (let inThis = filter (\<lambda>p. committed p \<ge> level) contrib;
          amt = (level - prev) * int (length inThis);
          elig = map pid (filter (\<lambda>p. \<not> folded p) inThis)
      in \<lparr>amount = amt, eligible = elig\<rparr> # potLoop contrib level levels)"

definition buildSidePots :: "player list \<Rightarrow> sidepot list" where
  "buildSidePots ps =
     (let contrib = filter (\<lambda>p. committed p > 0) ps
      in if length contrib = 0 then []
         else potLoop contrib 0 (sort (uniq (map committed contrib))))"

section \<open>Closing a betting round\<close>

definition shouldEndBettingRound :: "room \<Rightarrow> bool" where
  "shouldEndBettingRound r =
     (let ps = filter (\<lambda>p. \<not> folded p \<and> \<not> allIn p) (players r)
      in if length ps = 0 then True
         else (let allMatched = list_all (\<lambda>p. betThisRound p = currentBet r) ps;
                   allActed = list_all hasActed ps
               in allMatched \<and> allActed))"

section \<open>Deck\<close>

definition MAX_PLAYERS :: nat where
  "MAX_PLAYERS = 8"

definition STARTING_STACK :: int where
  "STARTING_STACK = 2000"

definition SUITS :: "string list" where
  "SUITS = [''s'', ''h'', ''d'', ''c'']"

text \<open>The thirteen one-character rank strings, deuce to ace.\<close>

definition RANKS :: "string list" where
  "RANKS = map (\<lambda>c. [c]) ''23456789TJQKA''"

text \<open>
  \<open>shuffleInPlace\<close> is Fisher-Yates: for \<open>i\<close> from the last index down to 1 it swaps
  \<open>arr[i]\<close> with \<open>arr[j]\<close>, where \<open>j = floor (random () * (i + 1))\<close> is some index in
  \<open>0..i\<close>.  The random draws are a parameter \<open>rnd\<close>: the draw made at index \<open>i\<close> is
  \<open>rnd i mod (i + 1)\<close>.
\<close>

fun shuffleLoop :: "(nat \<Rightarrow> nat) \<Rightarrow> nat \<Rightarrow> 'a list \<Rightarrow> 'a list" where
  "shuffleLoop rnd 0 arr = arr"
| "shuffleLoop rnd (Suc i) arr =
     (let j = rnd (Suc i) mod (Suc i + 1)
      in shuffleLoop rnd i (arr[Suc i := arr ! j, j := arr ! Suc i]))"

definition shuffleInPlace :: "(nat \<Rightarrow> nat) \<Rightarrow> 'a list \<Rightarrow> 'a list" where
  "shuffleInPlace rnd arr = shuffleLoop rnd (length arr - 1) arr"

definition unshuffled :: "card list" where
  "unshuffled = concat (map (\<lambda>r. map (\<lambda>s. r @ s) SUITS) RANKS)"

definition freshDeck :: "(nat \<Rightarrow> nat) \<Rightarrow> card list" where
  "freshDeck rnd = shuffleInPlace rnd unshuffled"

text \<open>
  \<open>deck.pop()\<close>: the last card of the array, or \<open>undefined\<close> when it is empty; \<open>popN\<close>
  is \<open>n\<close> pops in a row.
\<close>

definition pop :: "card list \<Rightarrow> card option \<times> card list" where
  "pop d = (if d = [] then (None, []) else (Some (last d), butlast d))"

fun popN :: "nat \<Rightarrow> card list \<Rightarrow> card option list \<times> card list" where
  "popN 0 d = ([], d)"
| "popN (Suc n) d = (let (c, d1) = pop d; (cs, d2) = popN n d1 in (c # cs, d2))"

section \<open>Seats\<close>

fun findIndex :: "('a \<Rightarrow> bool) \<Rightarrow> 'a list \<Rightarrow> nat option" where
  "findIndex P [] = None"
| "findIndex P (x # xs) = (if P x then Some 0 else map_option Suc (findIndex P xs))"

text \<open>
  The scan of \<open>nextActiveSeat\<close>: at most \<open>MAX_PLAYERS\<close> steps clockwise from \<open>fromSeat\<close>.
  The three flags are \<open>opts.includeFolded\<close>, \<open>opts.includeAllIn\<close> and
  \<open>opts.requireStack\<close>.  A \<open>null\<close> seat counts as 0 in \<open>seat + 1\<close>.
\<close>

fun seatScan :: "room \<Rightarrow> bool \<Rightarrow> bool \<Rightarrow> bool \<Rightarrow> nat \<Rightarrow> nat \<Rightarrow> nat option" where
  "seatScan r incF incA req 0 s = None"
| "seatScan r incF incA req (Suc n) s =
     (let s' = (s + 1) mod MAX_PLAYERS
      in case find (\<lambda>x. seat x = s') (players r) of
           None \<Rightarrow> seatScan r incF incA req n s'
         | Some p \<Rightarrow>
             if \<not> incF \<and> folded p then seatScan r incF incA req n s'
             else if \<not> incA \<and> allIn p then seatScan r incF incA req n s'
             else if req \<and> stack p \<le> 0 then seatScan r incF incA req n s'
             else Some s')"

definition nextActiveSeat :: "room \<Rightarrow> nat option \<Rightarrow> bool \<Rightarrow> bool \<Rightarrow> bool \<Rightarrow> nat option" where
  "nextActiveSeat r fromSeat incF incA req =
     (if players r = [] then None
      else seatScan r incF incA req MAX_PLAYERS (case fromSeat of None \<Rightarrow> 0 | Some s \<Rightarrow> s))"

definition seatedPlayers :: "room \<Rightarrow> player list" where
  "seatedPlayers r = sort_key seat (players r)"

definition activeSeats :: "room \<Rightarrow> nat list" where
  "activeSeats r = map seat (filter (\<lambda>p. stack p > 0) (seatedPlayers r))"

text \<open>\<open>assignSeat\<close>: the smallest seat below \<open>MAX_PLAYERS\<close> that nobody sits on.\<close>

definition assignSeat :: "room \<Rightarrow> nat option" where
  "assignSeat r = find (\<lambda>s. s \<notin> set (map seat (players r))) [0..<MAX_PLAYERS]"

section \<open>Chips and the start of a hand\<close>

text \<open>
  A player object is addressed by its index in \<open>room.players\<close>.  \<open>commitChips\<close> returns
  the new room and the amount paid.
\<close>

definition commitChips :: "room \<Rightarrow> nat \<Rightarrow> int \<Rightarrow> room \<times> int" where
  "commitChips r i wanted =
     (let p = players r ! i;
          pay = max 0 (min wanted (stack p));
          p1 = p\<lparr>stack := stack p - pay, betThisRound := betThisRound p + pay,
                 committed := committed p + pay\<rparr>;
          p2 = (if stack p1 = 0 then p1\<lparr>allIn := True\<rparr> else p1)
      in (r\<lparr>pot := pot r + pay, players := (players r)[i := p2]\<rparr>, pay))"

definition resetForNewHand :: "(nat \<Rightarrow> nat) \<Rightarrow> room \<Rightarrow> room" where
  "resetForNewHand rnd r =
     r\<lparr>state := Hand, stage := Preflop, community := [], deck := freshDeck rnd, pot := 0,
       currentBet := 0, minRaise := bigBlind r, lastAggressorSeat := None,
       currentSeat := None,
       players := map (\<lambda>p. p\<lparr>folded := (stack p \<le> 0), allIn := False, betThisRound := 0,
                               committed := 0, hole := [], hasActed := False\<rparr>) (players r)\<rparr>"

definition startBettingRound :: "room \<Rightarrow> room" where
  "startBettingRound r =
     (let r1 = r\<lparr>currentBet := 0, minRaise := bigBlind r, lastAggressorSeat := None,
                  players := map (\<lambda>p. if \<not> folded p \<and> \<not> allIn p
                                        then p\<lparr>betThisRound := 0, hasActed := False\<rparr>
                                        else p) (players r)\<rparr>;
          first = nextActiveSeat r1 (dealerSeat r1) False False False
      in r1\<lparr>currentSeat := first\<rparr>)"

text \<open>\<open>loneSurvivor\<close> returns the index of the only player who has not folded, if any.\<close>

definition loneSurvivor :: "room \<Rightarrow> nat option" where
  "loneSurvivor r =
     (let ps = filter (\<lambda>i. \<not> folded (players r ! i)) [0..<length (players r)]
      in if length ps = 1 then Some (hd ps) else None)"

text \<open>
  One pass of the inner loop of \<open>dealHoleCards\<close>: the player found on \<open>seat\<close> gets the top
  card, then \<open>seat\<close> moves on.  The two nested loops run this \<open>seats.length\<close> times, twice.
\<close>

definition dealOne :: "room \<times> nat option \<Rightarrow> room \<times> nat option" where
  "dealOne rs =
     (let r = fst rs; s = snd rs;
          r1 = (case findIndex (\<lambda>x. Some (seat x) = s) (players r) of
                  None \<Rightarrow> r
                | Some i \<Rightarrow>
                    if stack (players r ! i) \<ge> 0
                    then (let (c, d) = pop (deck r); p = players r ! i
                          in r\<lparr>deck := d, players := (players r)[i := p\<lparr>hole := hole p @ [c]\<rparr>]\<rparr>)
                    else r)
      in (r1, nextActiveSeat r1 s True True True))"

definition dealHoleCards :: "room \<Rightarrow> room" where
  "dealHoleCards r =
     (let seats = activeSeats r
      in if length seats < 2 then r
         else (let s = nextActiveSeat r (dealerSeat r) True True True;
                   rs1 = (dealOne ^^ length seats) (r, s);
                   rs2 = (dealOne ^^ length seats) rs1
               in fst rs2))"

text \<open>
  \<open>postBlinds\<close> returns \<open>undefined\<close> when fewer than two seats have chips (\<open>Inr None\<close>), and
  otherwise the two blind seats.  Reading a field of a player that \<open>find\<close> did not find
  throws a \<open>TypeError\<close> (\<open>Inl\<close>).
\<close>

datatype error = TypeError

definition postBlinds :: "room \<Rightarrow> error + room \<times> (nat option \<times> nat option) option" where
  "postBlinds r =
     (let seats = activeSeats r
      in if length seats < 2 then Inr (r, None)
         else
          (let sbSeat = (if length seats = 2 then dealerSeat r
                         else nextActiveSeat r (dealerSeat r) True True True);
               bbSeat = nextActiveSeat r sbSeat True True True
           in case findIndex (\<lambda>p. Some (seat p) = sbSeat) (players r) of
                None \<Rightarrow> Inl TypeError
              | Some sb \<Rightarrow>
                 (case findIndex (\<lambda>p. Some (seat p) = bbSeat) (players r) of
                    None \<Rightarrow> Inl TypeError
                  | Some bb \<Rightarrow>
                     (let r1 = fst (commitChips r sb (smallBlind r));
                          r2 = fst (commitChips r1 bb (bigBlind r1));
                          r3 = r2\<lparr>currentBet := max (betThisRound (players r2 ! sb))
                                                    (betThisRound (players r2 ! bb)),
                                  minRaise := bigBlind r2, lastAggressorSeat := bbSeat,
                                  players := map (\<lambda>p. if \<not> folded p \<and> \<not> allIn p
                                                        then p\<lparr>hasActed := False\<rparr> else p)
                                                 (players r2)\<rparr>
                      in Inr (r3, Some (sbSeat, bbSeat))))))"

definition firstToActPreflop :: "room \<Rightarrow> nat option \<Rightarrow> nat option" where
  "firstToActPreflop r bbSeat =
     (let seats = activeSeats r
      in if length seats = 2 then dealerSeat r
         else nextActiveSeat r bbSeat False False True)"

text \<open>
  \<open>beginHand\<close>.  Destructuring the \<open>undefined\<close> that \<open>postBlinds\<close> may return throws.
\<close>

definition beginHand :: "(nat \<Rightarrow> nat) \<Rightarrow> room \<Rightarrow> error + room" where
  "beginHand rnd r =
     (let seats = activeSeats r
      in if length seats < 2 then Inr (r\<lparr>state := Lobby\<rparr>)
         else
          (let r1 = (case dealerSeat r of
                       None \<Rightarrow> r\<lparr>dealerSeat := Some (hd seats)\<rparr>
                     | Some d \<Rightarrow>
                         if d \<notin> set seats then r\<lparr>dealerSeat := Some (hd seats)\<rparr>
                         else r\<lparr>dealerSeat := nextActiveSeat r (dealerSeat r) True True True\<rparr>);
               r2 = resetForNewHand rnd r1
           in case postBlinds r2 of
                Inl e \<Rightarrow> Inl e
              | Inr (r3, None) \<Rightarrow> Inl TypeError
              | Inr (r3, Some (sbSeat, bbSeat)) \<Rightarrow>
                  (let r4 = dealHoleCards r3
                   in Inr (r4\<lparr>currentSeat := firstToActPreflop r4 bbSeat\<rparr>))))"

definition moveToNextActor :: "room \<Rightarrow> room" where
  "moveToNextActor r = r\<lparr>currentSeat := nextActiveSeat r (currentSeat r) False False True\<rparr>"

section \<open>Broadcasts and bot scheduling\<close>

text \<open>
  \<open>broadcastRoom\<close> sends every viewer a snapshot and then calls \<open>scheduleBotIfNeeded\<close>,
  which is its only effect on the room: it arms \<open>room.botTimer\<close> when the acting seat is
  a bot's.
\<close>

definition scheduleBotIfNeeded :: "room \<Rightarrow> room" where
  "scheduleBotIfNeeded r =
     (if state r \<noteq> Hand \<or> currentSeat r = None then r
      else case find (\<lambda>x. Some (seat x) = currentSeat r) (players r) of
             None \<Rightarrow> r
           | Some p \<Rightarrow> if \<not> bot p then r else if botTimer r then r
                       else r\<lparr>botTimer := True\<rparr>)"

definition broadcastRoom :: "room \<Rightarrow> room" where
  "broadcastRoom r = scheduleBotIfNeeded r"

section \<open>Streets\<close>

text \<open>
  The timers that the engine arms with \<open>setTimeout\<close>: the one that resolves the showdown
  after the reveal pause, and the one that starts the next hand.  The flag tells the two
  variants of the next-hand callback apart: in three places it resets \<open>folded\<close> to
  \<open>stack <= 0\<close> (\<open>True\<close>), in the disconnect handler to \<open>false\<close> (\<open>False\<close>).  A function
  that arms timers returns them next to the room.
\<close>

datatype timer = ShowdownTimer bool | NextHandTimer bool

text \<open>\<open>room.community.push(room.deck.pop(), ...)\<close> with \<open>n\<close> pops.\<close>

definition pushCommunity :: "nat \<Rightarrow> room \<Rightarrow> room" where
  "pushCommunity n r =
     (let (cs, d) = popN n (deck r) in r\<lparr>community := community r @ cs, deck := d\<rparr>)"

definition advanceStage :: "room \<Rightarrow> room \<times> timer list" where
  "advanceStage r =
     (case stage r of
        Preflop \<Rightarrow> (startBettingRound (pushCommunity 3 (r\<lparr>stage := Flop\<rparr>)), [])
      | Flop \<Rightarrow> (startBettingRound (pushCommunity 1 (r\<lparr>stage := Turn\<rparr>)), [])
      | Turn \<Rightarrow> (startBettingRound (pushCommunity 1 (r\<lparr>stage := River\<rparr>)), [])
      | River \<Rightarrow> (broadcastRoom (r\<lparr>state := Reveal, currentSeat := None\<rparr>),
                   [ShowdownTimer True]))"

section \<open>Showdown\<close>

text \<open>
  The hand evaluator is the library \<open>pokersolver\<close>, which is not part of the program: the
  engine is parametric in \<open>Hand.solve\<close> (cards to a ranked hand) and \<open>Hand.winners\<close> (the
  best hands of a list).  The source compares the hands that \<open>Hand.winners\<close> returns with
  the solved ones by object identity; the model compares them as values.
\<close>

record 'h handLib =
  solve :: "card option list \<Rightarrow> 'h"
  winners :: "'h list \<Rightarrow> 'h list"

text \<open>\<open>solvedById\<close>: the map filled by the first loop of \<open>resolveShowdown\<close>.\<close>

definition solvedById :: "'h handLib \<Rightarrow> room \<Rightarrow> (pid \<rightharpoonup> 'h)" where
  "solvedById H r =
     fold (\<lambda>p m. if folded p then m else m(pid p \<mapsto> solve H (community r @ hole p)))
          (players r) Map.empty"

text \<open>
  \<open>payouts\<close> is a \<open>Map\<close> from player id to chips, iterated in insertion order:
  \<open>payAdd w x\<close> is \<open>payouts.set(w, (payouts.get(w) || 0) + x)\<close>.
\<close>

fun payAdd :: "pid \<Rightarrow> int \<Rightarrow> (pid \<times> int) list \<Rightarrow> (pid \<times> int) list" where
  "payAdd w x [] = [(w, x)]"
| "payAdd w x ((k, v) # kvs) =
     (if k = w then (k, v + x) # kvs else (k, v) # payAdd w x kvs)"

text \<open>
  The body of the loop over the pots.  When no entry is among the winners,
  \<open>pot.amount / 0\<close> is \<open>Infinity\<close> or \<open>NaN\<close>, the remainder is \<open>NaN\<close>, and nothing is paid.
\<close>

definition potStep :: "'h handLib \<Rightarrow> (pid \<rightharpoonup> 'h) \<Rightarrow> sidepot \<Rightarrow> (pid \<times> int) list \<Rightarrow> (pid \<times> int) list" where
  "potStep H solved pt payouts =
     (let entries = List.map_filter (\<lambda>i. map_option (Pair i) (solved i)) (eligible pt)
      in if length entries = 0 then payouts
         else
          (let winnersHands = winners H (map snd entries);
               potWinners = map fst (filter (\<lambda>e. snd e \<in> set winnersHands) entries)
           in if potWinners = [] then payouts
              else
               (let share = amount pt div int (length potWinners);
                    remainder = amount pt - share * int (length potWinners);
                    payouts1 = fold (\<lambda>wid. payAdd wid share) potWinners payouts
                in if remainder > 0 then payAdd (hd potWinners) remainder payouts1
                   else payouts1)))"

definition applyPayout :: "pid \<times> int \<Rightarrow> room \<Rightarrow> room" where
  "applyPayout kv r =
     (case findIndex (\<lambda>p. pid p = fst kv) (players r) of
        None \<Rightarrow> r
      | Some j \<Rightarrow> r\<lparr>players := (players r)[j := (players r ! j)\<lparr>stack := stack (players r ! j) + snd kv\<rparr>]\<rparr>)"

definition resolveShowdown :: "'h handLib \<Rightarrow> room \<Rightarrow> room" where
  "resolveShowdown H r =
     (let pots = buildSidePots (players r);
          solved = solvedById H r;
          payouts = fold (potStep H solved) pots []
      in fold applyPayout payouts r)"

definition awardPotTo :: "room \<Rightarrow> nat \<Rightarrow> room \<times> timer list" where
  "awardPotTo r j =
     (let p = players r ! j;
          r1 = r\<lparr>players := (players r)[j := p\<lparr>stack := stack p + pot r\<rparr>],
                 state := Reveal, currentSeat := None\<rparr>
      in (broadcastRoom r1, [ShowdownTimer True]))"

section \<open>Player actions\<close>

datatype action = Fold | Check | Call | AllIn | Bet | Raise | Unknown

text \<open>
  The loop that makes every other player who can still act respond again.
\<close>

definition reopenOthers :: "pid \<Rightarrow> room \<Rightarrow> room" where
  "reopenOthers me r =
     r\<lparr>players := map (\<lambda>other. if pid other = me then other
                                 else if folded other \<or> allIn other then other
                                 else other\<lparr>hasActed := False\<rparr>) (players r)\<rparr>"

definition markActed :: "nat \<Rightarrow> room \<Rightarrow> room" where
  "markActed i r = r\<lparr>players := (players r)[i := (players r ! i)\<lparr>hasActed := True\<rparr>]\<rparr>"

text \<open>
  \<open>handlePlayerAction\<close> is modelled in parts.  \<open>applyAction\<close> is the chain of branches
  on the action, for the player at index \<open>i\<close>, with the branch for \<open>bet\<close> and \<open>raise\<close> in
  \<open>betOrRaise\<close> and the one for \<open>all-in\<close> in \<open>goAllIn\<close>; \<open>None\<close> is one of the early
  \<open>return\<close>s, all taken before anything is written.  The amount \<open>amt\<close> is
  \<open>Math.floor (Number (amount) || 0)\<close>.
\<close>

definition betOrRaise :: "room \<Rightarrow> nat \<Rightarrow> int \<Rightarrow> room option" where
  "betOrRaise r i amt =
     (let p = players r ! i;
          desiredTotal = amt
      in if desiredTotal \<le> 0 then None
         else
          (let prevBet = currentBet r;
               minTo = (if prevBet = 0 then bigBlind r else prevBet + minRaise r);
               maxTotalPossible = betThisRound p + stack p;
               clamped = min desiredTotal maxTotalPossible
           in if clamped < minTo \<and> clamped \<noteq> maxTotalPossible then None
              else
               (let toPay = clamped - betThisRound p
                in if toPay \<le> 0 then None
                   else
                    (let r1 = fst (commitChips r i toPay);
                         raiseSize = clamped - prevBet;
                         r2 = (if clamped > prevBet
                               then (let r' = r1\<lparr>currentBet := clamped\<rparr>;
                                         r'' = (if raiseSize \<ge> minRaise r'
                                                then r'\<lparr>minRaise := raiseSize\<rparr> else r')
                                     in reopenOthers (pid p)
                                          (r''\<lparr>lastAggressorSeat := Some (seat p)\<rparr>))
                               else r1)
                     in Some (markActed i r2)))))"

definition goAllIn :: "room \<Rightarrow> nat \<Rightarrow> room option" where
  "goAllIn r i =
     (let p = players r ! i;
          desiredTotal = betThisRound p + stack p
      in if desiredTotal \<le> 0 then None
         else
          (let prevBet = currentBet r;
               toPay = min (stack p) (max 0 (desiredTotal - betThisRound p))
           in if toPay \<le> 0 then None
              else
               (let r1 = fst (commitChips r i toPay);
                    r2 = (if desiredTotal > prevBet
                          then (let raiseSize = desiredTotal - prevBet;
                                    r' = r1\<lparr>currentBet := desiredTotal\<rparr>;
                                    r'' = (if raiseSize \<ge> minRaise r'
                                           then r'\<lparr>minRaise := raiseSize\<rparr> else r')
                                in reopenOthers (pid p)
                                     (r''\<lparr>lastAggressorSeat := Some (seat p)\<rparr>))
                          else r1)
                in Some (markActed i r2))))"

definition applyAction :: "room \<Rightarrow> nat \<Rightarrow> action \<Rightarrow> int \<Rightarrow> room option" where
  "applyAction r i act amt =
     (let p = players r ! i;
          callAmount = max 0 (currentBet r - betThisRound p)
      in case act of
           Fold \<Rightarrow> Some (r\<lparr>players := (players r)[i := p\<lparr>folded := True, hasActed := True\<rparr>]\<rparr>)
         | Check \<Rightarrow> if callAmount \<noteq> 0 then None else Some (markActed i r)
         | Call \<Rightarrow>
             if callAmount = 0 then Some (markActed i r)
             else Some (markActed i (fst (commitChips r i callAmount)))
         | AllIn \<Rightarrow> goAllIn r i
         | Bet \<Rightarrow> betOrRaise r i amt
         | Raise \<Rightarrow> betOrRaise r i amt
         | Unknown \<Rightarrow> None)"

text \<open>
  The fast-forward loop: while the room is in a hand and nobody can act, deal the next
  street.
\<close>

definition stillCanAct :: "room \<Rightarrow> bool" where
  "stillCanAct r = list_ex (\<lambda>x. \<not> folded x \<and> \<not> allIn x \<and> stack x \<ge> 0) (players r)"

definition stageIdx :: "stage \<Rightarrow> nat" where
  "stageIdx s = (case s of Preflop \<Rightarrow> 0 | Flop \<Rightarrow> 1 | Turn \<Rightarrow> 2 | River \<Rightarrow> 3)"

function fastForward :: "room \<Rightarrow> room" where
  "fastForward r =
     (if state r \<noteq> Hand then r
      else if stillCanAct r then r
      else (let r1 = (case stage r of
                        Preflop \<Rightarrow> (pushCommunity 3 r)\<lparr>stage := Flop\<rparr>
                      | Flop \<Rightarrow> (pushCommunity 1 r)\<lparr>stage := Turn\<rparr>
                      | Turn \<Rightarrow> (pushCommunity 1 r)\<lparr>stage := River\<rparr>
                      | River \<Rightarrow> r\<lparr>state := Reveal, currentSeat := None\<rparr>)
            in if state r1 = Showdown then r1 else fastForward r1))"
  by pat_completeness auto
termination
  by (relation "measure (\<lambda>r. if state r = Hand then 5 - stageIdx (stage r) else 0)")
     (auto simp: pushCommunity_def stageIdx_def split: prod.splits stage.splits)

declare fastForward.simps [simp del]

text \<open>
  \<open>afterAction\<close> is what \<open>handlePlayerAction\<close> does once an action went through: the bot
  timer is cleared, a lone survivor is paid, a closed round moves the hand on, and
  otherwise the turn passes.
\<close>

definition afterAction :: "room \<Rightarrow> room \<times> timer list" where
  "afterAction r1 =
     (let r2 = r1\<lparr>botTimer := False\<rparr>
      in case loneSurvivor r2 of
           Some j \<Rightarrow> (let (r3, ts) = awardPotTo r2 j in (broadcastRoom r3, ts))
         | None \<Rightarrow>
             if shouldEndBettingRound r2
             then (let r3 = fastForward r2;
                       (r4, ts) = (if state r3 = Hand then advanceStage r3 else (r3, []))
                   in if state r4 = Reveal then (broadcastRoom r4, ts @ [ShowdownTimer True])
                      else (broadcastRoom r4, ts))
             else (broadcastRoom (moveToNextActor r2), []))"

definition handlePlayerAction :: "room \<Rightarrow> nat \<Rightarrow> action \<Rightarrow> int \<Rightarrow> room \<times> timer list" where
  "handlePlayerAction r i act amt =
     (let p = players r ! i
      in if state r \<noteq> Hand then (r, [])
         else if currentSeat r = None then (r, [])
         else if Some (seat p) \<noteq> currentSeat r then (r, [])
         else if folded p \<or> allIn p then (r, [])
         else case applyAction r i act amt of
                None \<Rightarrow> (r, [])
              | Some r1 \<Rightarrow> afterAction r1)"

section \<open>Timer callbacks\<close>

definition showdownTimer :: "'h handLib \<Rightarrow> bool \<Rightarrow> room \<Rightarrow> room \<times> timer list" where
  "showdownTimer H v rr =
     (let r1 = resolveShowdown H rr;
          r2 = r1\<lparr>state := Showdown, currentSeat := None\<rparr>
      in (broadcastRoom r2, [NextHandTimer v]))"

definition nextHandTimer :: "(nat \<Rightarrow> nat) \<Rightarrow> bool \<Rightarrow> room \<Rightarrow> error + room" where
  "nextHandTimer rnd v r =
     (let r1 = r\<lparr>state := Lobby, stage := Preflop,
                  players := map (\<lambda>pl. pl\<lparr>folded := (if v then stack pl \<le> 0 else False),
                                           allIn := False, betThisRound := 0, committed := 0,
                                           hole := [], hasActed := False\<rparr>) (players r)\<rparr>;
          seats = activeSeats r1
      in if length seats \<ge> 2
         then (case beginHand rnd (r1\<lparr>state := Hand\<rparr>) of
                 Inl e \<Rightarrow> Inl e
               | Inr r2 \<Rightarrow> Inr (broadcastRoom r2))
         else Inr (broadcastRoom r1))"

section \<open>The server and its events\<close>

text \<open>
  The server keeps the map \<open>rooms\<close> from room code to room and the timers it has armed.
  The model follows one room code, so \<open>rooms\<close> is that room or \<open>None\<close>.  An armed timer
  looks the room up by its code when it fires; the pending timers are a list, and any of
  them may fire next (the real delays allow fewer orders).  An uncaught \<open>TypeError\<close> ends
  the process: a handler returns \<open>Inl\<close> then.
\<close>

record server =
  rooms :: "room option"
  timers :: "timer list"

definition newPlayer :: "pid \<Rightarrow> nat \<Rightarrow> bool \<Rightarrow> player" where
  "newPlayer i s b =
     \<lparr>pid = i, seat = s, stack = STARTING_STACK, connected = True, folded = False,
      allIn = False, betThisRound = 0, committed = 0, hole = [], hasActed = False, bot = b\<rparr>"

definition createLobby :: "pid \<Rightarrow> server \<Rightarrow> server" where
  "createLobby sid srv =
     (case rooms srv of
        Some r \<Rightarrow> srv
      | None \<Rightarrow>
          srv\<lparr>rooms := Some (broadcastRoom
            \<lparr>hostId = sid, state = Lobby, stage = Preflop, dealerSeat = Some 0,
             smallBlind = 10, bigBlind = 20, pot = 0, community = [], deck = [],
             currentSeat = None, currentBet = 0, minRaise = 20, lastAggressorSeat = None,
             botTimer = False, players = [newPlayer sid 0 False]\<rparr>)\<rparr>)"

definition joinLobby :: "pid \<Rightarrow> server \<Rightarrow> server" where
  "joinLobby sid srv =
     (case rooms srv of
        None \<Rightarrow> srv
      | Some r \<Rightarrow>
          if length (players r) \<ge> MAX_PLAYERS then srv
          else if state r \<noteq> Lobby then srv
          else (case assignSeat r of
                  None \<Rightarrow> srv
                | Some s \<Rightarrow>
                    srv\<lparr>rooms := Some (broadcastRoom
                           (r\<lparr>players := players r @ [newPlayer sid s False]\<rparr>))\<rparr>))"

text \<open>
  The two numbers of \<open>setBlinds\<close> are integers here; 0 stands for every payload that
  \<open>Number (x) || d\<close> replaces by the default \<open>d\<close>.
\<close>

definition setBlinds :: "pid \<Rightarrow> int \<Rightarrow> int \<Rightarrow> server \<Rightarrow> server" where
  "setBlinds sid smallB bigB srv =
     (case rooms srv of
        None \<Rightarrow> srv
      | Some r \<Rightarrow>
          if sid \<noteq> hostId r then srv
          else (let sb = max 1 (if smallB = 0 then smallBlind r else smallB);
                    bb = max (sb + 1) (if bigB = 0 then bigBlind r else bigB)
                in srv\<lparr>rooms := Some (broadcastRoom (r\<lparr>smallBlind := sb, bigBlind := bb\<rparr>))\<rparr>))"

definition startGame :: "pid \<Rightarrow> (nat \<Rightarrow> nat) \<Rightarrow> server \<Rightarrow> error + server" where
  "startGame sid rnd srv =
     (case rooms srv of
        None \<Rightarrow> Inr srv
      | Some r \<Rightarrow>
          if sid \<noteq> hostId r then Inr srv
          else if state r \<noteq> Lobby \<and> state r \<noteq> Showdown then Inr srv
          else (case beginHand rnd r of
                  Inl e \<Rightarrow> Inl e
                | Inr r1 \<Rightarrow> Inr (srv\<lparr>rooms := Some (broadcastRoom r1)\<rparr>)))"

definition addBot :: "pid \<Rightarrow> pid \<Rightarrow> server \<Rightarrow> server" where
  "addBot sid botId srv =
     (case rooms srv of
        None \<Rightarrow> srv
      | Some r \<Rightarrow>
          if sid \<noteq> hostId r then srv
          else (case assignSeat r of
                  None \<Rightarrow> srv
                | Some s \<Rightarrow>
                    srv\<lparr>rooms := Some (broadcastRoom
                           (r\<lparr>players := players r @ [newPlayer botId s True]\<rparr>))\<rparr>))"

text \<open>A chat message only reaches the log; the broadcast after it may arm the bot timer.\<close>

definition chat :: "pid \<Rightarrow> string \<Rightarrow> server \<Rightarrow> server" where
  "chat sid message srv =
     (case rooms srv of
        None \<Rightarrow> srv
      | Some r \<Rightarrow>
          (case find (\<lambda>p. pid p = sid) (players r) of
             None \<Rightarrow> srv
           | Some p \<Rightarrow>
               if stack p \<le> 0 then srv
               else if message = [] then srv
               else srv\<lparr>rooms := Some (broadcastRoom r)\<rparr>))"

definition playerAction :: "pid \<Rightarrow> action \<Rightarrow> int \<Rightarrow> server \<Rightarrow> server" where
  "playerAction sid act amt srv =
     (case rooms srv of
        None \<Rightarrow> srv
      | Some r \<Rightarrow>
          (case findIndex (\<lambda>p. pid p = sid) (players r) of
             None \<Rightarrow> srv
           | Some i \<Rightarrow>
               (let (r1, ts) = handlePlayerAction r i act amt
                in srv\<lparr>rooms := Some r1, timers := timers srv @ ts\<rparr>)))"

text \<open>
  The \<open>disconnect\<close> handler, in two parts: \<open>leaveOrFold\<close> is what it does to the room
  of the player at index \<open>idx\<close> once \<open>connected\<close> is cleared (leave the lobby, or fold
  when it is the player's turn), and \<open>disconnect\<close> is the handler around it, which also
  moves the host and deletes an empty room.
\<close>

definition leaveOrFold :: "'h handLib \<Rightarrow> nat \<Rightarrow> room \<Rightarrow> room \<times> timer list" where
  "leaveOrFold H idx r0 =
     (let p = players r0 ! idx
      in if state r0 = Lobby
         then (r0\<lparr>players := take idx (players r0) @ drop (Suc idx) (players r0)\<rparr>, [])
         else if state r0 = Hand \<and> currentSeat r0 = Some (seat p) \<and> \<not> folded p \<and> \<not> allIn p
         then (let r' = r0\<lparr>players := (players r0)[idx := p\<lparr>folded := True, hasActed := True\<rparr>]\<rparr>
               in case loneSurvivor r' of
                    Some j \<Rightarrow> awardPotTo r' j
                  | None \<Rightarrow>
                      if shouldEndBettingRound r'
                      then (let (r'', ts') = advanceStage r'
                            in if state r'' = Reveal
                               then (broadcastRoom r'', ts' @ [ShowdownTimer False])
                               else if state r'' = Showdown
                               then (resolveShowdown H r'', ts')
                               else (r'', ts'))
                      else (moveToNextActor r', []))
         else (r0, []))"

definition disconnect :: "'h handLib \<Rightarrow> pid \<Rightarrow> server \<Rightarrow> server" where
  "disconnect H sid srv =
     (case rooms srv of
        None \<Rightarrow> srv
      | Some r \<Rightarrow>
          (case findIndex (\<lambda>p. pid p = sid) (players r) of
             None \<Rightarrow> srv
           | Some idx \<Rightarrow>
               (let r0 = r\<lparr>players := (players r)[idx := (players r ! idx)\<lparr>connected := False\<rparr>]\<rparr>;
                    (r1, ts) = leaveOrFold H idx r0;
                    r2 = (if hostId r1 = sid \<and> length (players r1) > 0
                          then r1\<lparr>hostId := pid (players r1 ! 0)\<rparr> else r1)
                in if length (players r2) = 0
                   then srv\<lparr>rooms := None, timers := timers srv @ ts\<rparr>
                   else srv\<lparr>rooms := Some (broadcastRoom r2), timers := timers srv @ ts\<rparr>)))"

text \<open>
  A pending timer fires: \<open>k\<close> is its place in the list, \<open>rnd\<close> the random draws of the
  shuffle in case the callback starts a hand.
\<close>

definition timerFires :: "'h handLib \<Rightarrow> nat \<Rightarrow> (nat \<Rightarrow> nat) \<Rightarrow> server \<Rightarrow> error + server" where
  "timerFires H k rnd srv =
     (if k \<ge> length (timers srv) then Inr srv
      else
       (let t = timers srv ! k;
            rest = take k (timers srv) @ drop (Suc k) (timers srv)
        in case rooms srv of
             None \<Rightarrow> Inr (srv\<lparr>timers := rest\<rparr>)
           | Some r \<Rightarrow>
               (case t of
                  ShowdownTimer v \<Rightarrow>
                    (let (r1, ts) = showdownTimer H v r
                     in Inr (srv\<lparr>rooms := Some r1, timers := rest @ ts\<rparr>))
                | NextHandTimer v \<Rightarrow>
                    (case nextHandTimer rnd v r of
                       Inl e \<Rightarrow> Inl e
                     | Inr r1 \<Rightarrow> Inr (srv\<lparr>rooms := Some r1, timers := rest\<rparr>)))))"

text \<open>
  The bot timer fires.  \<open>c1\<close> and \<open>c2\<close> are the outcomes of the two random tests
  \<open>Math.random () < 0.35\<close> and \<open>Math.random () < 0.25\<close>.  \<open>botAction\<close> is the choice the
  callback makes for the bot at index \<open>i\<close> once it has found it neither folded nor all-in.
\<close>

definition botAction :: "room \<Rightarrow> nat \<Rightarrow> bool \<Rightarrow> bool \<Rightarrow> room \<times> timer list" where
  "botAction r0 i c1 c2 =
     (let b = players r0 ! i;
          callAmount = max 0 (currentBet r0 - betThisRound b)
      in if callAmount = 0
         then (if c1 \<and> stack b > bigBlind r0
               then handlePlayerAction r0 i Bet
                      (min (betThisRound b + bigBlind r0) (betThisRound b + stack b))
               else handlePlayerAction r0 i Call 0)
         else (if callAmount \<le> max 1 (stack b div 4) \<or> c2
               then handlePlayerAction r0 i Call 0
               else handlePlayerAction r0 i Fold 0))"

definition botTimerFires :: "bool \<Rightarrow> bool \<Rightarrow> server \<Rightarrow> server" where
  "botTimerFires c1 c2 srv =
     (case rooms srv of
        None \<Rightarrow> srv
      | Some r \<Rightarrow>
          if \<not> botTimer r then srv
          else
           (let r0 = r\<lparr>botTimer := False\<rparr>
            in case findIndex (\<lambda>x. Some (seat x) = currentSeat r0) (players r0) of
                 None \<Rightarrow> srv\<lparr>rooms := Some r0\<rparr>
               | Some i \<Rightarrow>
                   (let b = players r0 ! i
                    in if folded b \<or> allIn b then srv\<lparr>rooms := Some r0\<rparr>
                       else (let (r1, ts) = botAction r0 i c1 c2
                             in srv\<lparr>rooms := Some r1, timers := timers srv @ ts\<rparr>))))"

datatype event =
    CreateLobby pid
  | JoinLobby pid
  | SetBlinds pid int int
  | StartGame pid "nat \<Rightarrow> nat"
  | AddBot pid pid
  | Chat pid string
  | PlayerAction pid action int
  | Disconnect pid
  | TimerFires nat "nat \<Rightarrow> nat"
  | BotTimerFires bool bool

definition step :: "'h handLib \<Rightarrow> event \<Rightarrow> server \<Rightarrow> error + server" where
  "step H ev srv =
     (case ev of
        CreateLobby sid \<Rightarrow> Inr (createLobby sid srv)
      | JoinLobby sid \<Rightarrow> Inr (joinLobby sid srv)
      | SetBlinds sid sb bb \<Rightarrow> Inr (setBlinds sid sb bb srv)
      | StartGame sid rnd \<Rightarrow> startGame sid rnd srv
      | AddBot sid botId \<Rightarrow> Inr (addBot sid botId srv)
      | Chat sid message \<Rightarrow> Inr (chat sid message srv)
      | PlayerAction sid act amt \<Rightarrow> Inr (playerAction sid act amt srv)
      | Disconnect sid \<Rightarrow> Inr (disconnect H sid srv)
      | TimerFires k rnd \<Rightarrow> timerFires H k rnd srv
      | BotTimerFires c1 c2 \<Rightarrow> Inr (botTimerFires c1 c2 srv))"

fun run :: "'h handLib \<Rightarrow> event list \<Rightarrow> server \<Rightarrow> error + server" where
  "run H [] srv = Inr srv"
| "run H (ev # evs) srv =
     (case step H ev srv of Inl e \<Rightarrow> Inl e | Inr srv1 \<Rightarrow> run H evs srv1)"

definition initServer :: server where
  "initServer = \<lparr>rooms = None, timers = []\<rparr>"

text \<open>The states the server can be in after some sequence of events.\<close>

definition reachable :: "'h handLib \<Rightarrow> server \<Rightarrow> bool" where
  "reachable H srv = (\<exists>evs. run H evs initServer = Inr srv)"

section \<open>Invariants of a room\<close>

text \<open>
  The cards of a room are the deck, the hole cards of all players and the board.  They
  are in order when together they are the 52 cards of the pack, each once.
\<close>

definition cards :: "room \<Rightarrow> card option list" where
  "cards r = map Some (deck r) @ concat (map hole (players r)) @ community r"

definition cardsOk :: "room \<Rightarrow> bool" where
  "cardsOk r = (mset (cards r) = mset (map Some unshuffled))"

text \<open>The board has the number of cards of its street.\<close>

definition stageOk :: "room \<Rightarrow> bool" where
  "stageOk r =
     (length (community r) = (case stage r of Preflop \<Rightarrow> 0 | Flop \<Rightarrow> 3 | Turn \<Rightarrow> 4 | River \<Rightarrow> 5))"

definition holeCount :: "room \<Rightarrow> nat" where
  "holeCount r = length (concat (map hole (players r)))"

text \<open>No two players share a seat, and every seat is one of the table.\<close>

definition seatsOk :: "room \<Rightarrow> bool" where
  "seatsOk r = (distinct (map seat (players r)) \<and> (\<forall>p \<in> set (players r). seat p < MAX_PLAYERS))"

text \<open>
  A player without chips is all-in or has folded.  The chips a player owned when the hand
  began are the stack and what the player has committed since; a player who owned none
  has folded and holds no cards.
\<close>

definition chipsOk :: "player \<Rightarrow> bool" where
  "chipsOk p =
     ((stack p \<le> 0 \<longrightarrow> allIn p \<or> folded p)
      \<and> (stack p + committed p \<le> 0 \<longrightarrow> folded p \<and> hole p = []))"

definition bustedFolded :: "room \<Rightarrow> bool" where
  "bustedFolded r = (\<forall>p \<in> set (players r). chipsOk p)"

text \<open>The player on the acting seat has not folded.\<close>

definition actorLive :: "room \<Rightarrow> bool" where
  "actorLive r = (\<forall>p \<in> set (players r). Some (seat p) = currentSeat r \<longrightarrow> \<not> folded p)"

definition handInv :: "room \<Rightarrow> bool" where
  "handInv r =
     (cardsOk r \<and> stageOk r \<and> holeCount r \<le> 2 * MAX_PLAYERS \<and> bustedFolded r \<and> actorLive r)"

text \<open>
  The invariant of a room: the seats are in order in every state, the cards are in order
  while a hand is being played and while its cards are revealed, and the rest holds
  while a hand is being played.
\<close>

definition roomInv :: "room \<Rightarrow> bool" where
  "roomInv r =
     (seatsOk r \<and> (state r = Hand \<longrightarrow> handInv r) \<and> (state r = Reveal \<longrightarrow> cardsOk r))"

definition srvInv :: "server \<Rightarrow> bool" where
  "srvInv srv = (case rooms srv of None \<Rightarrow> True | Some r \<Rightarrow> roomInv r)"

text \<open>
  Auxiliary notions for the proofs: what \<open>commitChips\<close> does to the paying player; two
  rooms with the same cards, street and seats; the reset of the street bets in
  \<open>startBettingRound\<close>; a seat whose player has chips, and what holds of the room and the
  seat before each card that \<open>dealHoleCards\<close> deals; the fields of a player that dealing
  leaves alone.
\<close>

definition pays :: "int \<Rightarrow> player \<Rightarrow> player" where
  "pays w p =
     (let pay = max 0 (min w (stack p));
          p1 = p\<lparr>stack := stack p - pay, betThisRound := betThisRound p + pay,
                 committed := committed p + pay\<rparr>
      in if stack p1 = 0 then p1\<lparr>allIn := True\<rparr> else p1)"

definition sameCards :: "room \<Rightarrow> room \<Rightarrow> bool" where
  "sameCards r r' =
     (deck r' = deck r \<and> community r' = community r \<and> stage r' = stage r \<and> state r' = state r
      \<and> map hole (players r') = map hole (players r)
      \<and> map seat (players r') = map seat (players r))"

definition roundReset :: "room \<Rightarrow> room" where
  "roundReset r =
     r\<lparr>currentBet := 0, minRaise := bigBlind r, lastAggressorSeat := None,
       players := map (\<lambda>p. if \<not> folded p \<and> \<not> allIn p
                             then p\<lparr>betThisRound := 0, hasActed := False\<rparr>
                             else p) (players r)\<rparr>"

definition seatHasChips :: "room \<Rightarrow> nat option \<Rightarrow> bool" where
  "seatHasChips r s =
     (case s of
        None \<Rightarrow> True
      | Some t \<Rightarrow> (case find (\<lambda>x. seat x = t) (players r) of
                     None \<Rightarrow> False
                   | Some p \<Rightarrow> 0 < stack p))"

definition dealReady :: "room \<times> nat option \<Rightarrow> bool" where
  "dealReady rs =
     (bustedFolded (fst rs) \<and> (\<forall>p \<in> set (players (fst rs)). 0 \<le> committed p)
      \<and> seatHasChips (fst rs) (snd rs))"

definition chipView :: "player \<Rightarrow> nat \<times> int \<times> bool \<times> bool" where
  "chipView p = (seat p, stack p, allIn p, folded p)"

definition dealFrame :: "room \<Rightarrow> room \<Rightarrow> bool" where
  "dealFrame r r' =
     (state r' = state r \<and> stage r' = stage r \<and> community r' = community r
      \<and> dealerSeat r' = dealerSeat r
      \<and> map chipView (players r') = map chipView (players r))"

section \<open>The side pots as the specification words them\<close>

text \<open>
  The levels are the distinct positive committed amounts in ascending order; the pot of a
  level \<open>L\<close> with predecessor \<open>P\<close> holds \<open>(L - P)\<close> chips for every player who committed at
  least \<open>L\<close>, and the players among those who have not folded are eligible for it.
\<close>

definition levelsOf :: "player list \<Rightarrow> int list" where
  "levelsOf ps = sorted_list_of_set (committed ` {p \<in> set ps. 0 < committed p})"

definition specPots :: "player list \<Rightarrow> sidepot list" where
  "specPots ps =
     map (\<lambda>(P, L). \<lparr>amount = (L - P) * int (length (filter (\<lambda>p. committed p \<ge> L) ps)),
                    eligible = map pid (filter (\<lambda>p. \<not> folded p)
                                               (filter (\<lambda>p. committed p \<ge> L) ps))\<rparr>)
         (zip (0 # levelsOf ps) (levelsOf ps))"

section \<open>Example tables\<close>

text \<open>
  A stand-in for the hand evaluator in worked examples: it ranks a hand by its highest
  card alone.
\<close>

definition rankOf :: "card option \<Rightarrow> nat" where
  "rankOf c =
     (case c of
        None \<Rightarrow> 0
      | Some s \<Rightarrow> (case findIndex (\<lambda>r. r = take 1 s) RANKS of None \<Rightarrow> 0 | Some k \<Rightarrow> k))"

definition highCardLib :: "nat handLib" where
  "highCardLib = \<lparr>solve = (\<lambda>cs. fold max (map rankOf cs) 0),
                  winners = (\<lambda>hs. filter (\<lambda>h. list_all (\<lambda>h'. h' \<le> h) hs) hs)\<rparr>"

definition mkPlayer :: "pid \<Rightarrow> nat \<Rightarrow> int \<Rightarrow> int \<Rightarrow> bool \<Rightarrow> player" where
  "mkPlayer i s st c f =
     \<lparr>pid = i, seat = s, stack = st, connected = True, folded = f, allIn = False,
      betThisRound = 0, committed = c, hole = [], hasActed = False, bot = False\<rparr>"

text \<open>Three players who have not folded, with 100, 100 and 300 chips committed.\<close>

definition threeWay :: "player list" where
  "threeWay = [mkPlayer ''A'' 0 1900 100 False, mkPlayer ''B'' 1 1900 100 False,
               mkPlayer ''C'' 2 1700 300 False]"

text \<open>Four players: one folded after committing 50, two at 200, one who committed nothing.\<close>

definition fourWay :: "player list" where
  "fourWay = [mkPlayer ''A'' 0 1950 50 True, mkPlayer ''B'' 1 1800 200 False,
              mkPlayer ''C'' 2 1800 200 False, mkPlayer ''D'' 3 0 0 True]"

text \<open>
  A heads-up table on the flop: \<open>B\<close> has the button, \<open>A\<close> has bet 20 into a pot of 40 and
  it is \<open>B\<close>'s turn.
\<close>

definition flopTable :: room where
  "flopTable =
     \<lparr>hostId = ''A'', state = Hand, stage = Flop, dealerSeat = Some 1, smallBlind = 10,
      bigBlind = 20, pot = 60, community = [Some ''Kc'', Some ''Kd'', Some ''Kh''],
      deck = [''2s'', ''2h'', ''2d'', ''2c'', ''3s'', ''3h'', ''3d'', ''3c'', ''4s'', ''4h'',
              ''4d'', ''4c'', ''5s'', ''5h'', ''5d'', ''5c'', ''6s'', ''6h'', ''6d'', ''6c'',
              ''7s'', ''7h'', ''7d'', ''7c'', ''8s'', ''8h'', ''8d'', ''8c'', ''9s'', ''9h'',
              ''9d'', ''9c'', ''Ts'', ''Th'', ''Td'', ''Tc'', ''Js'', ''Jh'', ''Jd'', ''Jc'',
              ''Qs'', ''Qh'', ''Qd'', ''Qc'', ''Ks''],
      currentSeat = Some 1, currentBet = 20, minRaise = 20, lastAggressorSeat = Some 0,
      botTimer = False,
      players =
        [\<lparr>pid = ''A'', seat = 0, stack = 1960, connected = True, folded = False,
          allIn = False, betThisRound = 20, committed = 40,
          hole = [Some ''Ac'', Some ''Ah''], hasActed = True, bot = False\<rparr>,
         \<lparr>pid = ''B'', seat = 1, stack = 1980, connected = True, folded = False,
          allIn = False, betThisRound = 0, committed = 20,
          hole = [Some ''Ad'', Some ''As''], hasActed = False, bot = False\<rparr>]\<rparr>"

text \<open>The table on the flop with \<open>B\<close> down to 30 chips, less than a full raise.\<close>

definition shortTable :: room where
  "shortTable = flopTable\<lparr>players := (players flopTable)[1 := (players flopTable ! 1)\<lparr>stack := 30\<rparr>]\<rparr>"

text \<open>The same table after \<open>B\<close> has called the bet.\<close>

definition calledTable :: room where
  "calledTable = markActed 1 (fst (commitChips flopTable 1 20))"

text \<open>
  Two players \<open>A\<close> and \<open>B\<close> at a new table, and the hands played below.  \<open>seated\<close> is a
  connected human player who has neither folded nor gone all-in.
\<close>

definition seated :: "pid \<Rightarrow> nat \<Rightarrow> int \<Rightarrow> int \<Rightarrow> card list \<Rightarrow> player" where
  "seated i s st c h =
     \<lparr>pid = i, seat = s, stack = st, connected = True, folded = False, allIn = False,
      betThisRound = c, committed = c, hole = map Some h, hasActed = False, bot = False\<rparr>"

definition lobbyAB :: room where
  "lobbyAB = \<lparr>hostId = ''A'', state = Lobby, stage = Preflop, dealerSeat = Some 0,
             smallBlind = 10, bigBlind = 20, pot = 0, community = [], deck = [],
             currentSeat = None, currentBet = 0, minRaise = 20, lastAggressorSeat = None,
             botTimer = False, players = [seated ''A'' 0 2000 0 [], seated ''B'' 1 2000 0 []]\<rparr>"

text \<open>
  The first hand when the shuffle leaves the pack as it is: \<open>B\<close> has the button and the
  small blind, \<open>A\<close> the big blind, and it is \<open>B\<close>'s turn.
\<close>

definition headsUp :: room where
  "headsUp = lobbyAB\<lparr>state := Hand, dealerSeat := Some 1, pot := 30, deck := take 48 unshuffled,
       currentSeat := Some 1, currentBet := 20, lastAggressorSeat := Some 0,
       players := [seated ''A'' 0 1980 20 [''Ac'', ''Ah''], seated ''B'' 1 1990 10 [''Ad'', ''As'']]\<rparr>"

text \<open>\<open>B\<close> folds; then the timer armed by \<open>awardPotTo\<close> fires.\<close>

definition afterFold :: room where
  "afterFold = headsUp\<lparr>state := Reveal, currentSeat := None,
       players := [seated ''A'' 0 2010 20 [''Ac'', ''Ah''],
                   (seated ''B'' 1 1990 10 [''Ad'', ''As''])\<lparr>folded := True, hasActed := True\<rparr>]\<rparr>"

definition paidTwice :: room where
  "paidTwice = afterFold\<lparr>state := Showdown,
       players := [seated ''A'' 0 2040 20 [''Ac'', ''Ah''],
                   (seated ''B'' 1 1990 10 [''Ad'', ''As''])\<lparr>folded := True, hasActed := True\<rparr>]\<rparr>"

definition foldEvents :: "event list" where
  "foldEvents = [CreateLobby ''A'', JoinLobby ''B'', StartGame ''A'' (\<lambda>i. i),
                 PlayerAction ''B'' Fold 0]"

text \<open>
  A second first hand, with a shuffle that swaps two pairs of cards: \<open>A\<close> is dealt two
  aces and \<open>B\<close> two deuces.  \<open>B\<close> goes all-in, \<open>A\<close> calls, the board comes with four kings
  and a queen, \<open>A\<close> wins everything, and the next-hand timer finds only one player with
  chips.
\<close>

definition rndB :: "nat \<Rightarrow> nat" where
  "rndB i = (if i = 50 then 0 else if i = 48 then 1 else i)"

definition headsUpB :: room where
  "headsUpB = headsUp\<lparr>deck := [''Ad'', ''As''] @ drop 2 (take 48 unshuffled),
       players := [seated ''A'' 0 1980 20 [''Ac'', ''Ah''], seated ''B'' 1 1990 10 [''2s'', ''2h'']]\<rparr>"

definition allInB :: room where
  "allInB = headsUpB\<lparr>pot := 2020, currentSeat := Some 0, currentBet := 2000, minRaise := 1980,
       lastAggressorSeat := Some 1,
       players := [seated ''A'' 0 1980 20 [''Ac'', ''Ah''],
                   (seated ''B'' 1 0 2000 [''2s'', ''2h''])\<lparr>allIn := True, hasActed := True\<rparr>]\<rparr>"

definition revealB :: room where
  "revealB = allInB\<lparr>state := Reveal, stage := River, pot := 4000,
       community := map Some [''Kc'', ''Kd'', ''Kh'', ''Ks'', ''Qc''],
       deck := [''Ad'', ''As''] @ drop 2 (take 43 unshuffled), currentSeat := None,
       players := [(seated ''A'' 0 0 2000 [''Ac'', ''Ah''])\<lparr>allIn := True, hasActed := True\<rparr>,
                   (seated ''B'' 1 0 2000 [''2s'', ''2h''])\<lparr>allIn := True, hasActed := True\<rparr>]\<rparr>"

definition showdownB :: room where
  "showdownB = revealB\<lparr>state := Showdown,
       players := [(seated ''A'' 0 4000 2000 [''Ac'', ''Ah''])\<lparr>allIn := True, hasActed := True\<rparr>,
                   (seated ''B'' 1 0 2000 [''2s'', ''2h''])\<lparr>allIn := True, hasActed := True\<rparr>]\<rparr>"

definition bustedLobby :: room where
  "bustedLobby = showdownB\<lparr>state := Lobby, stage := Preflop,
       players := [seated ''A'' 0 4000 0 [], (seated ''B'' 1 0 0 [])\<lparr>folded := True\<rparr>]\<rparr>"

definition bustEvents :: "event list" where
  "bustEvents = [CreateLobby ''A'', JoinLobby ''B'', StartGame ''A'' rndB,
                 PlayerAction ''B'' AllIn 0, PlayerAction ''A'' Call 0,
                 TimerFires 0 (\<lambda>i. i), TimerFires 0 (\<lambda>i. i)]"

section \<open>Properties of the side-pot builder\<close>

lemma set_uniq [simp]: "set (uniq xs) = set xs"
  by (simp add: uniq_def)

lemma distinct_uniq [simp]: "distinct (uniq xs)"
  by (simp add: uniq_def)

lemma sort_uniq_eq: "sort (uniq xs) = sorted_list_of_set (set xs)"
proof -
  have "sorted_list_of_set (set (uniq xs)) = sort (remdups (uniq xs))"
    by (rule sorted_list_of_set_sort_remdups)
  then show ?thesis by (simp add: distinct_remdups_id)
qed

lemma sum_list_all_zero: "\<forall>x \<in> set xs. f x = (0::int) \<Longrightarrow> sum_list (map f xs) = 0"
  by (induction xs) auto

lemma potLoop_zip:
  "potLoop contrib prev ls =
     map (\<lambda>(P, L). \<lparr>amount = (L - P) * int (length (filter (\<lambda>p. committed p \<ge> L) contrib)),
                    eligible = map pid (filter (\<lambda>p. \<not> folded p)
                                               (filter (\<lambda>p. committed p \<ge> L) contrib))\<rparr>)
         (zip (prev # ls) ls)"
  by (induction ls arbitrary: prev) (simp_all add: Let_def)

lemma levels_contrib:
  "sort (uniq (map committed (filter (\<lambda>p. committed p > 0) ps))) = levelsOf ps"
proof -
  have "set (map committed (filter (\<lambda>p. committed p > 0) ps))
          = committed ` {p \<in> set ps. 0 < committed p}"
    by auto
  then show ?thesis by (simp add: sort_uniq_eq levelsOf_def del: set_map set_filter)
qed

lemma levelsOf_pos: "L \<in> set (levelsOf ps) \<Longrightarrow> 0 < L"
  by (auto simp: levelsOf_def)

lemma filter_contrib:
  "0 < L \<Longrightarrow> filter (\<lambda>p. committed p \<ge> L) (filter (\<lambda>p. committed p > 0) ps)
             = filter (\<lambda>p. committed p \<ge> L) ps"
  by (induction ps) auto

lemma buildSidePots_spec: "buildSidePots ps = specPots ps"
proof (cases "filter (\<lambda>p. committed p > 0) ps = []")
  case True
  then have "{p \<in> set ps. 0 < committed p} = {}"
    by (auto simp: filter_empty_conv)
  then have "levelsOf ps = []" by (simp add: levelsOf_def)
  with True show ?thesis by (simp add: buildSidePots_def specPots_def)
next
  case False
  have pos: "\<And>P L. (P, L) \<in> set (zip (0 # levelsOf ps) (levelsOf ps)) \<Longrightarrow> 0 < L"
    by (auto dest: set_zip_rightD levelsOf_pos)
  have "potLoop (filter (\<lambda>p. committed p > 0) ps) 0 (levelsOf ps) = specPots ps"
    unfolding potLoop_zip specPots_def
    by (rule map_cong) (auto simp: filter_contrib dest: pos simp del: filter_filter)
  then show ?thesis using False
    by (simp add: buildSidePots_def Let_def levels_contrib)
qed

lemma slice_sum:
  "(L - prev) * int (length (filter (\<lambda>p. L \<le> committed p) xs))
     = sum_list (map (\<lambda>p. if L \<le> committed p then L - prev else 0) xs)"
  by (induction xs) (simp_all add: algebra_simps)

text \<open>
  The pots above \<open>prev\<close> add up to what every contributor has committed above \<open>prev\<close>,
  provided the levels are ascending and every commitment above \<open>prev\<close> is a level.
\<close>

lemma potLoop_sum:
  "sorted (prev # ls) \<Longrightarrow> distinct (prev # ls)
   \<Longrightarrow> \<forall>p \<in> set contrib. committed p \<le> prev \<or> committed p \<in> set ls
   \<Longrightarrow> sum_list (map amount (potLoop contrib prev ls))
       = sum_list (map (\<lambda>p. max (committed p) prev - prev) contrib)"
proof (induction ls arbitrary: prev)
  case Nil
  then have "\<forall>p \<in> set contrib. max (committed p) prev - prev = 0" by auto
  then have "sum_list (map (\<lambda>p. max (committed p) prev - prev) contrib) = 0"
    by (rule sum_list_all_zero)
  then show ?case by simp
next
  case (Cons L rest)
  have lt: "prev < L" using Cons.prems(1,2) by auto
  have cond: "\<forall>p \<in> set contrib. committed p \<le> L \<or> committed p \<in> set rest"
    using Cons.prems(3) lt by auto
  have ih: "sum_list (map amount (potLoop contrib L rest))
       = sum_list (map (\<lambda>p. max (committed p) L - L) contrib)"
    using Cons.IH [of L] Cons.prems(1,2) cond by simp
  have each: "\<forall>p \<in> set contrib.
      (if L \<le> committed p then L - prev else 0) + (max (committed p) L - L)
        = max (committed p) prev - prev"
  proof
    fix p assume p: "p \<in> set contrib"
    from Cons.prems(1,3) p have "committed p \<le> prev \<or> L \<le> committed p" by auto
    with lt show "(if L \<le> committed p then L - prev else 0) + (max (committed p) L - L)
        = max (committed p) prev - prev" by auto
  qed
  have "sum_list (map amount (potLoop contrib prev (L # rest)))
      = sum_list (map (\<lambda>p. if L \<le> committed p then L - prev else 0) contrib)
        + sum_list (map (\<lambda>p. max (committed p) L - L) contrib)"
    by (simp add: Let_def ih slice_sum)
  also have "\<dots> = sum_list (map (\<lambda>p. (if L \<le> committed p then L - prev else 0)
                                       + (max (committed p) L - L)) contrib)"
    by (simp add: sum_list_addf)
  also have "\<dots> = sum_list (map (\<lambda>p. max (committed p) prev - prev) contrib)"
    using each by (intro arg_cong [where f = sum_list] map_cong) auto
  finally show ?case .
qed

lemma sum_contrib:
  "\<forall>p \<in> set ps. 0 \<le> committed p \<Longrightarrow>
    sum_list (map committed (filter (\<lambda>p. committed p > 0) ps)) = sum_list (map committed ps)"
  by (induction ps) auto

lemma buildSidePots_total:
  assumes "\<forall>p \<in> set ps. 0 \<le> committed p"
  shows "sum_list (map amount (buildSidePots ps)) = sum_list (map committed ps)"
proof (cases "filter (\<lambda>p. committed p > 0) ps = []")
  case True
  then have "\<forall>p \<in> set ps. committed p = 0" using assms
    by (auto simp: filter_empty_conv) (metis linorder_not_less order_antisym)
  then have "sum_list (map committed ps) = 0" by (rule sum_list_all_zero)
  with True show ?thesis by (simp add: buildSidePots_def)
next
  case False
  let ?c = "filter (\<lambda>p. committed p > 0) ps"
  let ?ls = "sort (uniq (map committed ?c))"
  have s: "sorted (0 # ?ls)" by (auto simp: sort_uniq_eq)
  have d: "distinct (0 # ?ls)" by (auto simp: sort_uniq_eq)
  have c: "\<forall>p \<in> set ?c. committed p \<le> 0 \<or> committed p \<in> set ?ls"
    by (auto simp: sort_uniq_eq)
  have "sum_list (map amount (potLoop ?c 0 ?ls))
          = sum_list (map (\<lambda>p. max (committed p) 0 - 0) ?c)"
    by (rule potLoop_sum [OF s d c])
  also have "\<dots> = sum_list (map committed ?c)"
    by (intro arg_cong [where f = sum_list] map_cong) auto
  also have "\<dots> = sum_list (map committed ps)" by (rule sum_contrib [OF assms])
  finally show ?thesis using False by (simp add: buildSidePots_def Let_def)
qed

text \<open>
  Claim C2.  For every list of players, \<open>buildSidePots\<close> returns the pots of the
  specification: one pot per level, in ascending order of the levels, where the pot of
  level \<open>L\<close> with predecessor \<open>P\<close> (0 for the first) has amount \<open>(L - P)\<close> times the number
  of players who committed at least \<open>L\<close>, and the players among those who have not folded
  are eligible.  The amounts add up to the total of all committed amounts; committed
  amounts are chip counts, so none of them is negative.
\<close>

theorem buildSidePots_correct:
  "buildSidePots ps = specPots ps
   \<and> ((\<forall>p \<in> set ps. 0 \<le> committed p)
        \<longrightarrow> sum_list (map amount (buildSidePots ps)) = sum_list (map committed ps))"
  using buildSidePots_spec buildSidePots_total by blast

theorem buildSidePots_correct_witness:
  "map committed fourWay = [50, 200, 200, 0]
   \<and> buildSidePots fourWay = specPots fourWay
   \<and> buildSidePots fourWay = [\<lparr>amount = 150, eligible = [''B'', ''C'']\<rparr>,
                               \<lparr>amount = 300, eligible = [''B'', ''C'']\<rparr>]
   \<and> sum_list (map committed fourWay) = 450
   \<and> sum_list (map amount (buildSidePots fourWay)) = sum_list (map committed fourWay)"
proof -
  have nn: "\<forall>p \<in> set fourWay. 0 \<le> committed p"
    by (simp add: fourWay_def mkPlayer_def)
  have ev: "buildSidePots fourWay = [\<lparr>amount = 150, eligible = [''B'', ''C'']\<rparr>,
                                     \<lparr>amount = 300, eligible = [''B'', ''C'']\<rparr>]"
    by (simp add: buildSidePots_def fourWay_def mkPlayer_def uniq_def)
  have tot: "sum_list (map committed fourWay) = 450"
    by (simp add: fourWay_def mkPlayer_def)
  from buildSidePots_correct [of fourWay] nn
  have a: "buildSidePots fourWay = specPots fourWay"
    and b: "sum_list (map amount (buildSidePots fourWay)) = sum_list (map committed fourWay)"
    by blast+
  have cs: "map committed fourWay = [50, 200, 200, 0]"
    by (simp add: fourWay_def mkPlayer_def)
  show ?thesis by (intro conjI cs a ev tot b)
qed

text \<open>
  Claim C7 as stated fails: for three players who have not folded and have committed 100,
  100 and 300, the second pot is not 400 and the pots do not add up to 700.
\<close>

theorem sidepots_100_100_300_counterexample:
  "buildSidePots threeWay \<noteq>
     [\<lparr>amount = 300, eligible = [''A'', ''B'', ''C'']\<rparr>, \<lparr>amount = 400, eligible = [''C'']\<rparr>]
   \<and> sum_list (map amount (buildSidePots threeWay)) \<noteq> 700"
  by (simp add: buildSidePots_def threeWay_def mkPlayer_def uniq_def)

text \<open>
  Claim C7, amended.  For three players who have not folded and have committed 100, 100
  and 300, \<open>buildSidePots\<close> returns exactly two pots: one of 300 for which all three are
  eligible, and one of 200 for which only the player who committed 300 is eligible; the
  amounts add up to 500.
\<close>

theorem sidepots_100_100_300:
  "buildSidePots threeWay =
     [\<lparr>amount = 300, eligible = [''A'', ''B'', ''C'']\<rparr>, \<lparr>amount = 200, eligible = [''C'']\<rparr>]
   \<and> sum_list (map amount (buildSidePots threeWay)) = 500"
  by (simp add: buildSidePots_def threeWay_def mkPlayer_def uniq_def)

section \<open>Properties of the betting round\<close>

text \<open>
  Claim C3.  \<open>shouldEndBettingRound\<close> is true exactly when no player is both not folded
  and not all-in, or every such player has acted and has matched the current bet.
\<close>

theorem shouldEndBettingRound_iff:
  "shouldEndBettingRound r \<longleftrightarrow>
     (filter (\<lambda>p. \<not> folded p \<and> \<not> allIn p) (players r) = []
      \<or> (\<forall>p \<in> set (players r). \<not> folded p \<and> \<not> allIn p
             \<longrightarrow> hasActed p \<and> betThisRound p = currentBet r))"
  by (auto simp: shouldEndBettingRound_def Let_def list_all_iff filter_empty_conv)

theorem shouldEndBettingRound_iff_witness:
  "map hasActed (players calledTable) = [True, True]
   \<and> map betThisRound (players calledTable) = [20, 20]
   \<and> currentBet calledTable = 20
   \<and> shouldEndBettingRound calledTable
   \<and> map hasActed (players flopTable) = [True, False]
   \<and> \<not> shouldEndBettingRound flopTable"
  using shouldEndBettingRound_iff [of calledTable] shouldEndBettingRound_iff [of flopTable]
  by (simp add: calledTable_def flopTable_def markActed_def commitChips_def Let_def)

lemma commitChips_exact:
  assumes "i < length (players r)" "0 \<le> w" "w \<le> stack (players r ! i)"
  shows "pot (fst (commitChips r i w)) = pot r + w"
    and "stack (players (fst (commitChips r i w)) ! i) = stack (players r ! i) - w"
    and "betThisRound (players (fst (commitChips r i w)) ! i) = betThisRound (players r ! i) + w"
    and "committed (players (fst (commitChips r i w)) ! i) = committed (players r ! i) + w"
  using assms by (simp_all add: commitChips_def Let_def)

lemma scheduleBot_eq: "broadcastRoom r = r \<or> broadcastRoom r = r\<lparr>botTimer := True\<rparr>"
  by (auto simp: broadcastRoom_def scheduleBotIfNeeded_def split: option.splits)

lemma loneSurvivor_botTimer: "loneSurvivor (r\<lparr>botTimer := b\<rparr>) = loneSurvivor r"
  by (simp add: loneSurvivor_def)

lemma shouldEnd_botTimer: "shouldEndBettingRound (r\<lparr>botTimer := b\<rparr>) = shouldEndBettingRound r"
  by (simp add: shouldEndBettingRound_def)

lemma handler_bet:
  assumes "state r = Hand" "currentSeat r = Some (seat (players r ! i))"
    "\<not> folded (players r ! i)" "\<not> allIn (players r ! i)" "act = Bet \<or> act = Raise"
  shows "handlePlayerAction r i act T =
           (case betOrRaise r i T of None \<Rightarrow> (r, []) | Some r1 \<Rightarrow> afterAction r1)"
proof -
  from assms(5) have "applyAction r i act T = betOrRaise r i T"
    by (auto simp: applyAction_def Let_def)
  with assms(1-4) show ?thesis by (simp add: handlePlayerAction_def Let_def)
qed

lemma betOrRaise_None:
  "(betOrRaise r i T = None) =
     (T \<le> 0
      \<or> \<not> (min T (betThisRound (players r ! i) + stack (players r ! i))
               \<ge> (if currentBet r = 0 then bigBlind r else currentBet r + minRaise r)
            \<or> min T (betThisRound (players r ! i) + stack (players r ! i))
               = betThisRound (players r ! i) + stack (players r ! i))
      \<or> min T (betThisRound (players r ! i) + stack (players r ! i)) \<le> betThisRound (players r ! i))"
  by (auto simp: betOrRaise_def Let_def)

lemma afterAction_continues:
  assumes "loneSurvivor r1 = None" "\<not> shouldEndBettingRound r1"
  shows "afterAction r1 = (broadcastRoom (moveToNextActor (r1\<lparr>botTimer := False\<rparr>)), [])"
  using assms by (simp add: afterAction_def Let_def loneSurvivor_botTimer shouldEnd_botTimer)

lemma seatScan_players:
  "players r' = players r \<Longrightarrow> seatScan r' incF incA req n s = seatScan r incF incA req n s"
proof (induction n arbitrary: s)
  case 0
  then show ?case by simp
next
  case (Suc n)
  have ih: "\<And>s. seatScan r' incF incA req n s = seatScan r incF incA req n s"
    using Suc by simp
  show ?case by (simp only: seatScan.simps Let_def ih Suc.prems)
qed

lemma nextActiveSeat_players:
  "players r' = players r \<Longrightarrow> nextActiveSeat r' s incF incA req = nextActiveSeat r s incF incA req"
  using seatScan_players [of r' r] by (simp add: nextActiveSeat_def)

lemma continues_fields:
  "players (broadcastRoom (moveToNextActor (r1\<lparr>botTimer := False\<rparr>))) = players r1"
  "pot (broadcastRoom (moveToNextActor (r1\<lparr>botTimer := False\<rparr>))) = pot r1"
  "currentBet (broadcastRoom (moveToNextActor (r1\<lparr>botTimer := False\<rparr>))) = currentBet r1"
  "minRaise (broadcastRoom (moveToNextActor (r1\<lparr>botTimer := False\<rparr>))) = minRaise r1"
  "currentSeat (broadcastRoom (moveToNextActor (r1\<lparr>botTimer := False\<rparr>)))
     = nextActiveSeat r1 (currentSeat r1) False False True"
proof -
  let ?m = "moveToNextActor (r1\<lparr>botTimer := False\<rparr>)"
  have n: "nextActiveSeat (r1\<lparr>botTimer := False\<rparr>) (currentSeat r1) False False True
      = nextActiveSeat r1 (currentSeat r1) False False True"
    by (rule nextActiveSeat_players) simp
  have m: "players ?m = players r1" "pot ?m = pot r1" "currentBet ?m = currentBet r1"
    "minRaise ?m = minRaise r1"
    "currentSeat ?m = nextActiveSeat r1 (currentSeat r1) False False True"
    by (simp_all add: moveToNextActor_def n)
  from scheduleBot_eq [of ?m] consider "broadcastRoom ?m = ?m"
    | "broadcastRoom ?m = ?m\<lparr>botTimer := True\<rparr>" by blast
  then have "players (broadcastRoom ?m) = players ?m \<and> pot (broadcastRoom ?m) = pot ?m
    \<and> currentBet (broadcastRoom ?m) = currentBet ?m \<and> minRaise (broadcastRoom ?m) = minRaise ?m
    \<and> currentSeat (broadcastRoom ?m) = currentSeat ?m"
    by cases simp_all
  with m show "players (broadcastRoom ?m) = players r1" "pot (broadcastRoom ?m) = pot r1"
    "currentBet (broadcastRoom ?m) = currentBet r1" "minRaise (broadcastRoom ?m) = minRaise r1"
    "currentSeat (broadcastRoom ?m) = nextActiveSeat r1 (currentSeat r1) False False True"
    by simp_all
qed

lemma raise_is_bet: "handlePlayerAction r i Raise T = handlePlayerAction r i Bet T"
  by (simp add: handlePlayerAction_def applyAction_def Let_def)

text \<open>
  Claim C4.  For a bet or raise to the total \<open>T\<close> by the player at index \<open>i\<close>, let \<open>minTo\<close>
  be the big blind when the current bet is 0 and the current bet plus the minimum raise
  otherwise, and let \<open>clamped\<close> be \<open>T\<close> cut down to the player's street bet plus stack.
  Unless \<open>clamped\<close> reaches \<open>minTo\<close> or is the player's whole street bet plus stack, the
  action is a silent no-op; the branch accepts the action exactly when, in addition,
  \<open>T\<close> is positive and \<open>clamped\<close> exceeds the player's street bet.  \<open>raise\<close> and \<open>bet\<close> are
  handled alike, and when it is the player's turn \<open>handlePlayerAction\<close> runs the branch
  and, if the branch accepts, goes on with its result.  When the action is accepted, the
  player commits \<open>clamped - betThisRound\<close> chips; if \<open>clamped\<close> exceeds the previous
  current bet, the current bet becomes \<open>clamped\<close>, the minimum raise becomes the raise
  size exactly when that size is at least the old minimum raise, and every other player
  (one with another id) who is neither folded nor all-in has \<open>hasActed\<close> reset to false;
  and if nobody is left alone and the betting round is not over, the room that
  \<open>handlePlayerAction\<close> returns has these players, pot, current bet and minimum raise,
  and the turn has passed on.
\<close>

theorem betOrRaise_rule:
  fixes r :: room and i :: nat and T :: int
  assumes i: "i < length (players r)"
  defines "p \<equiv> players r ! i"
  defines "minTo \<equiv> (if currentBet r = 0 then bigBlind r else currentBet r + minRaise r)"
  defines "clamped \<equiv> min T (betThisRound p + stack p)"
  defines "turn \<equiv> state r = Hand \<and> currentSeat r = Some (seat p) \<and> \<not> folded p \<and> \<not> allIn p"
  shows "(\<not> (clamped \<ge> minTo \<or> clamped = betThisRound p + stack p) \<longrightarrow>
            betOrRaise r i T = None \<and> handlePlayerAction r i Bet T = (r, [])
            \<and> handlePlayerAction r i Raise T = (r, []))
       \<and> (betOrRaise r i T \<noteq> None) =
            (0 < T \<and> (clamped \<ge> minTo \<or> clamped = betThisRound p + stack p)
             \<and> betThisRound p < clamped)
       \<and> handlePlayerAction r i Raise T = handlePlayerAction r i Bet T
       \<and> (turn \<longrightarrow> handlePlayerAction r i Bet T =
            (case betOrRaise r i T of None \<Rightarrow> (r, []) | Some r' \<Rightarrow> afterAction r'))
       \<and> (\<forall>r'. betOrRaise r i T = Some r' \<longrightarrow>
            pot r' = pot r + (clamped - betThisRound p)
            \<and> stack (players r' ! i) = stack p - (clamped - betThisRound p)
            \<and> betThisRound (players r' ! i) = clamped
            \<and> committed (players r' ! i) = committed p + (clamped - betThisRound p)
            \<and> (clamped > currentBet r \<longrightarrow>
                 currentBet r' = clamped
                 \<and> minRaise r' = (if clamped - currentBet r \<ge> minRaise r
                                  then clamped - currentBet r else minRaise r)
                 \<and> (\<forall>q \<in> set (players r'). pid q \<noteq> pid p \<and> \<not> folded q \<and> \<not> allIn q
                        \<longrightarrow> \<not> hasActed q))
            \<and> (turn \<and> loneSurvivor r' = None \<and> \<not> shouldEndBettingRound r' \<longrightarrow>
                 players (fst (handlePlayerAction r i Bet T)) = players r'
                 \<and> pot (fst (handlePlayerAction r i Bet T)) = pot r'
                 \<and> currentBet (fst (handlePlayerAction r i Bet T)) = currentBet r'
                 \<and> minRaise (fst (handlePlayerAction r i Bet T)) = minRaise r'
                 \<and> currentSeat (fst (handlePlayerAction r i Bet T))
                      = nextActiveSeat r' (currentSeat r) False False True))"
proof (intro conjI impI allI)
  assume "\<not> (clamped \<ge> minTo \<or> clamped = betThisRound p + stack p)"
  then show n: "betOrRaise r i T = None"
    by (auto simp: betOrRaise_def Let_def p_def minTo_def clamped_def)
  then show "handlePlayerAction r i Bet T = (r, [])" "handlePlayerAction r i Raise T = (r, [])"
    by (simp_all add: handlePlayerAction_def applyAction_def Let_def)
next
  show "(betOrRaise r i T \<noteq> None) =
            (0 < T \<and> (clamped \<ge> minTo \<or> clamped = betThisRound p + stack p)
             \<and> betThisRound p < clamped)"
    unfolding betOrRaise_None p_def minTo_def clamped_def by auto
next
  show "handlePlayerAction r i Raise T = handlePlayerAction r i Bet T" by (rule raise_is_bet)
next
  assume turn
  then show "handlePlayerAction r i Bet T =
            (case betOrRaise r i T of None \<Rightarrow> (r, []) | Some r' \<Rightarrow> afterAction r')"
    by (intro handler_bet) (simp_all add: turn_def p_def)
next
  fix r' assume a: "betOrRaise r i T = Some r'"
  define w where "w = clamped - betThisRound p"
  from a have w: "0 < w" "w \<le> stack p"
    by (auto simp: betOrRaise_def Let_def p_def clamped_def w_def split: if_splits)
  define r1 where "r1 = fst (commitChips r i w)"
  have c1: "pot r1 = pot r + w" "stack (players r1 ! i) = stack p - w"
     "betThisRound (players r1 ! i) = betThisRound p + w"
     "committed (players r1 ! i) = committed p + w" "length (players r1) = length (players r)"
     "currentBet r1 = currentBet r" "minRaise r1 = minRaise r" "currentSeat r1 = currentSeat r"
    using i w by (simp_all add: r1_def p_def commitChips_def Let_def)
  have r': "r' = markActed i (if clamped > currentBet r
               then reopenOthers (pid p) ((if clamped - currentBet r \<ge> minRaise r1
                       then r1\<lparr>currentBet := clamped, minRaise := clamped - currentBet r\<rparr>
                       else r1\<lparr>currentBet := clamped\<rparr>)\<lparr>lastAggressorSeat := Some (seat p)\<rparr>)
               else r1)"
    using a by (auto simp: betOrRaise_def Let_def p_def clamped_def w_def r1_def split: if_splits)
  have pidi: "pid (players r1 ! i) = pid p"
    using i by (simp add: r1_def p_def commitChips_def Let_def)
  have cs: "currentSeat r' = currentSeat r"
    using c1 by (simp add: r' markActed_def reopenOthers_def)
  show "pot r' = pot r + (clamped - betThisRound p)"
    using c1 by (simp add: r' markActed_def reopenOthers_def w_def)
  show "stack (players r' ! i) = stack p - (clamped - betThisRound p)"
    using c1 i pidi by (simp add: r' markActed_def reopenOthers_def w_def)
  show "betThisRound (players r' ! i) = clamped"
    using c1 i pidi by (simp add: r' markActed_def reopenOthers_def w_def)
  show "committed (players r' ! i) = committed p + (clamped - betThisRound p)"
    using c1 i pidi by (simp add: r' markActed_def reopenOthers_def w_def)
  {
    assume gt: "clamped > currentBet r"
    show "currentBet r' = clamped"
      using gt by (simp add: r' markActed_def reopenOthers_def)
    show "minRaise r' = (if clamped - currentBet r \<ge> minRaise r
                                  then clamped - currentBet r else minRaise r)"
      using gt c1 by (simp add: r' markActed_def reopenOthers_def)
    show "\<forall>q \<in> set (players r'). pid q \<noteq> pid p \<and> \<not> folded q \<and> \<not> allIn q \<longrightarrow> \<not> hasActed q"
    proof (intro ballI impI)
      fix q assume q: "q \<in> set (players r')" "pid q \<noteq> pid p \<and> \<not> folded q \<and> \<not> allIn q"
      let ?f = "\<lambda>other. if pid other = pid p then other
                                 else if folded other \<or> allIn other then other
                                 else other\<lparr>hasActed := False\<rparr>"
      have ps: "players r' = (map ?f (players r1))[i := (map ?f (players r1) ! i)\<lparr>hasActed := True\<rparr>]"
        using gt by (simp add: r' markActed_def reopenOthers_def)
      from q(1) obtain k where k: "k < length (players r')" "q = players r' ! k"
        by (auto simp: in_set_conv_nth)
      have "k \<noteq> i"
      proof
        assume "k = i"
        then have "pid q = pid p" using k c1 i pidi by (simp add: ps)
        with q(2) show False by simp
      qed
      then have "q = ?f (players r1 ! k)" using k c1 by (simp add: ps)
      with q(2) show "\<not> hasActed q" by (auto split: if_splits)
    qed
  }
  {
    assume t: "turn \<and> loneSurvivor r' = None \<and> \<not> shouldEndBettingRound r'"
    then have "handlePlayerAction r i Bet T = afterAction r'"
      using handler_bet [of r i Bet T] a by (simp add: turn_def p_def)
    with t have h: "fst (handlePlayerAction r i Bet T)
        = broadcastRoom (moveToNextActor (r'\<lparr>botTimer := False\<rparr>))"
      by (simp add: afterAction_continues)
    show "players (fst (handlePlayerAction r i Bet T)) = players r'"
      "pot (fst (handlePlayerAction r i Bet T)) = pot r'"
      "currentBet (fst (handlePlayerAction r i Bet T)) = currentBet r'"
      "minRaise (fst (handlePlayerAction r i Bet T)) = minRaise r'"
      "currentSeat (fst (handlePlayerAction r i Bet T))
         = nextActiveSeat r' (currentSeat r) False False True"
      unfolding h by (simp_all only: continues_fields cs)
  }
qed

text \<open>
  On the flop table a raise to 25 is refused and a raise to 70 goes through; at the short
  table an all-in for 30, below the minimum of 40, goes through as well.
\<close>

theorem betOrRaise_rule_witness:
  "(1::nat) < length (players flopTable)
   \<and> betOrRaise flopTable 1 25 = None
   \<and> handlePlayerAction flopTable 1 Raise 25 = (flopTable, [])
   \<and> betOrRaise flopTable 1 70 \<noteq> None
   \<and> pot (the (betOrRaise flopTable 1 70)) = 130
   \<and> stack (players (the (betOrRaise flopTable 1 70)) ! 1) = 1910
   \<and> betThisRound (players (the (betOrRaise flopTable 1 70)) ! 1) = 70
   \<and> currentBet (the (betOrRaise flopTable 1 70)) = 70
   \<and> minRaise (the (betOrRaise flopTable 1 70)) = 50
   \<and> map hasActed (players (the (betOrRaise flopTable 1 70))) = [False, True]
   \<and> handlePlayerAction flopTable 1 Raise 70 = afterAction (the (betOrRaise flopTable 1 70))
   \<and> players (fst (handlePlayerAction flopTable 1 Raise 70))
        = players (the (betOrRaise flopTable 1 70))
   \<and> pot (fst (handlePlayerAction flopTable 1 Raise 70)) = 130
   \<and> currentBet (fst (handlePlayerAction flopTable 1 Raise 70)) = 70
   \<and> minRaise (fst (handlePlayerAction flopTable 1 Raise 70)) = 50
   \<and> currentSeat (fst (handlePlayerAction flopTable 1 Raise 70)) = Some 0
   \<and> betThisRound (players shortTable ! 1) + stack (players shortTable ! 1) = 30
   \<and> currentBet shortTable + minRaise shortTable = 40
   \<and> betOrRaise shortTable 1 100 \<noteq> None
   \<and> handlePlayerAction shortTable 1 Bet 100 = afterAction (the (betOrRaise shortTable 1 100))
   \<and> pot (fst (handlePlayerAction shortTable 1 Bet 100)) = 90
   \<and> map stack (players (fst (handlePlayerAction shortTable 1 Bet 100))) = [1960, 0]
   \<and> map betThisRound (players (fst (handlePlayerAction shortTable 1 Bet 100))) = [20, 30]
   \<and> map allIn (players (fst (handlePlayerAction shortTable 1 Bet 100))) = [False, True]
   \<and> map hasActed (players (fst (handlePlayerAction shortTable 1 Bet 100))) = [False, True]
   \<and> currentBet (fst (handlePlayerAction shortTable 1 Bet 100)) = 30
   \<and> minRaise (fst (handlePlayerAction shortTable 1 Bet 100)) = 20"
proof -
  define r' where "r' = the (betOrRaise flopTable 1 70)"
  define r'' where "r'' = the (betOrRaise shortTable 1 100)"
  have l: "(1::nat) < length (players flopTable)" by (simp add: flopTable_def)
  have ls: "(1::nat) < length (players shortTable)" by (simp add: shortTable_def flopTable_def)
  have rej: "betOrRaise flopTable 1 25 = None"
    "handlePlayerAction flopTable 1 Raise 25 = (flopTable, [])"
    using betOrRaise_rule [OF l, of 25, THEN conjunct1, rule_format]
    by (simp_all add: flopTable_def)
  have ne: "betOrRaise flopTable 1 70 \<noteq> None"
    unfolding betOrRaise_rule [OF l, of 70, THEN conjunct2, THEN conjunct1]
    by (simp add: flopTable_def)
  then have r': "betOrRaise flopTable 1 70 = Some r'" by (auto simp: r'_def)
  have t: "state flopTable = Hand \<and> currentSeat flopTable = Some (seat (players flopTable ! 1))
      \<and> \<not> folded (players flopTable ! 1) \<and> \<not> allIn (players flopTable ! 1)"
    by (simp add: flopTable_def)
  have rb: "handlePlayerAction flopTable 1 Raise 70 = handlePlayerAction flopTable 1 Bet 70"
    by (rule betOrRaise_rule [OF l, of 70, THEN conjunct2, THEN conjunct2, THEN conjunct1])
  have run: "handlePlayerAction flopTable 1 Bet 70 = afterAction r'"
    using betOrRaise_rule [OF l, of 70, THEN conjunct2, THEN conjunct2, THEN conjunct2,
        THEN conjunct1, rule_format, OF t]
    by (simp only: r' option.case)
  note acc = betOrRaise_rule [OF l, of 70, THEN conjunct2, THEN conjunct2, THEN conjunct2,
        THEN conjunct2, rule_format, OF r']
  have 1: "pot r' = 130" "stack (players r' ! 1) = 1910" "betThisRound (players r' ! 1) = 70"
     "currentBet r' = 70" "minRaise r' = 50"
    using acc by (simp_all add: flopTable_def)
  have 2: "map hasActed (players r') = [False, True]"
    unfolding r'_def by code_simp
  have 3: "loneSurvivor r' = None \<and> \<not> shouldEndBettingRound r'"
    unfolding r'_def by code_simp
  have 5: "nextActiveSeat r' (currentSeat flopTable) False False True = Some 0"
    unfolding r'_def by code_simp
  have 4: "players (fst (handlePlayerAction flopTable 1 Bet 70)) = players r'"
    "pot (fst (handlePlayerAction flopTable 1 Bet 70)) = 130"
    "currentBet (fst (handlePlayerAction flopTable 1 Bet 70)) = 70"
    "minRaise (fst (handlePlayerAction flopTable 1 Bet 70)) = 50"
    "currentSeat (fst (handlePlayerAction flopTable 1 Bet 70)) = Some 0"
    using acc t 3 1 5 by simp_all
  have s0: "betThisRound (players shortTable ! 1) + stack (players shortTable ! 1) = 30"
    "currentBet shortTable + minRaise shortTable = 40"
    by (simp_all add: shortTable_def flopTable_def)
  have nes: "betOrRaise shortTable 1 100 \<noteq> None"
    unfolding betOrRaise_rule [OF ls, of 100, THEN conjunct2, THEN conjunct1]
    by (simp add: shortTable_def flopTable_def)
  then have r'': "betOrRaise shortTable 1 100 = Some r''" by (auto simp: r''_def)
  have ts: "state shortTable = Hand \<and> currentSeat shortTable = Some (seat (players shortTable ! 1))
      \<and> \<not> folded (players shortTable ! 1) \<and> \<not> allIn (players shortTable ! 1)"
    by (simp add: shortTable_def flopTable_def)
  have runs: "handlePlayerAction shortTable 1 Bet 100 = afterAction r''"
    using betOrRaise_rule [OF ls, of 100, THEN conjunct2, THEN conjunct2, THEN conjunct2,
        THEN conjunct1, rule_format, OF ts]
    by (simp only: r'' option.case)
  note accs = betOrRaise_rule [OF ls, of 100, THEN conjunct2, THEN conjunct2, THEN conjunct2,
        THEN conjunct2, rule_format, OF r'']
  have 6: "pot r'' = 90" "currentBet r'' = 30" "minRaise r'' = 20"
    using accs by (simp_all add: shortTable_def flopTable_def)
  have 7: "map stack (players r'') = [1960, 0]" "map betThisRound (players r'') = [20, 30]"
    "map allIn (players r'') = [False, True]" "map hasActed (players r'') = [False, True]"
    unfolding r''_def by code_simp+
  have 8: "loneSurvivor r'' = None \<and> \<not> shouldEndBettingRound r''"
    unfolding r''_def by code_simp
  have 9: "players (fst (handlePlayerAction shortTable 1 Bet 100)) = players r''"
    "pot (fst (handlePlayerAction shortTable 1 Bet 100)) = 90"
    "currentBet (fst (handlePlayerAction shortTable 1 Bet 100)) = 30"
    "minRaise (fst (handlePlayerAction shortTable 1 Bet 100)) = 20"
    using accs ts 8 6 by simp_all
  show ?thesis
    unfolding r'_def [symmetric] r''_def [symmetric] rb 9(1) 4(1)
    by (intro conjI l rej ne 1 2 run 4 s0 nes runs 9 7 refl)
qed

text \<open>
  Claim C6.  A \<open>playerAction\<close> that arrives when the room is not in a hand, or from a
  player whose seat is not the acting seat, or from a folded or all-in player, or that is
  a check while the player's street bet is below the current bet, leaves the whole server
  state as it was (every field of the room and of every player, and the pending timers),
  and raises no error.  The same holds when the sender is in no room.
\<close>

theorem illegal_action_noop:
  assumes "rooms srv = None
      \<or> (\<exists>r. rooms srv = Some r \<and>
           (findIndex (\<lambda>p. pid p = sid) (players r) = None
            \<or> (\<exists>i. findIndex (\<lambda>p. pid p = sid) (players r) = Some i \<and>
                 (state r \<noteq> Hand \<or> Some (seat (players r ! i)) \<noteq> currentSeat r
                  \<or> folded (players r ! i) \<or> allIn (players r ! i)
                  \<or> (act = Check \<and> betThisRound (players r ! i) < currentBet r)))))"
  shows "step H (PlayerAction sid act amt) srv = Inr srv"
  using assms
  by (auto simp: step_def playerAction_def handlePlayerAction_def applyAction_def Let_def
           split: option.splits)

theorem illegal_action_noop_witness:
  "findIndex (\<lambda>p. pid p = ''A'') (players flopTable) = Some 0
   \<and> Some (seat (players flopTable ! 0)) \<noteq> currentSeat flopTable
   \<and> step highCardLib (PlayerAction ''A'' Bet 100) \<lparr>rooms = Some flopTable, timers = []\<rparr>
       = Inr \<lparr>rooms = Some flopTable, timers = []\<rparr>
   \<and> findIndex (\<lambda>p. pid p = ''B'') (players flopTable) = Some 1
   \<and> betThisRound (players flopTable ! 1) < currentBet flopTable
   \<and> step highCardLib (PlayerAction ''B'' Check 0) \<lparr>rooms = Some flopTable, timers = []\<rparr>
       = Inr \<lparr>rooms = Some flopTable, timers = []\<rparr>"
proof -
  have a: "findIndex (\<lambda>p. pid p = ''A'') (players flopTable) = Some 0"
    by (simp add: flopTable_def)
  have b: "Some (seat (players flopTable ! 0)) \<noteq> currentSeat flopTable"
    by (simp add: flopTable_def)
  have c: "findIndex (\<lambda>p. pid p = ''B'') (players flopTable) = Some 1"
    by (simp add: flopTable_def)
  have d: "betThisRound (players flopTable ! 1) < currentBet flopTable"
    by (simp add: flopTable_def)
  have 1: "step highCardLib (PlayerAction ''A'' Bet 100) \<lparr>rooms = Some flopTable, timers = []\<rparr>
       = Inr \<lparr>rooms = Some flopTable, timers = []\<rparr>"
    by (rule illegal_action_noop) (use a b in simp)
  have 2: "step highCardLib (PlayerAction ''B'' Check 0) \<lparr>rooms = Some flopTable, timers = []\<rparr>
       = Inr \<lparr>rooms = Some flopTable, timers = []\<rparr>"
    by (rule illegal_action_noop) (use c d in simp)
  show ?thesis by (intro conjI a b c d 1 2)
qed

section \<open>The invariant holds in every reachable state\<close>

lemma map_upd_same: "(\<And>x. f (g x) = f x) \<Longrightarrow> map f (xs[i := g (xs ! i)]) = map f xs"
  by (induction xs arbitrary: i) (auto split: nat.splits)

lemma map_upd_same2: "(\<And>x. f (g (h x)) = f x) \<Longrightarrow> map f (xs[i := g (h (xs ! i))]) = map f xs"
  using map_upd_same [of f "\<lambda>x. g (h x)" xs i] by simp

lemma ball_upd: "\<forall>p \<in> set xs. P p \<Longrightarrow> (i < length xs \<Longrightarrow> P x) \<Longrightarrow> \<forall>p \<in> set (xs[i := x]). P p"
  by (cases "i < length xs") (auto dest: set_update_subset_insert [THEN subsetD] simp: list_update_beyond)

lemma findIndex_Some: "findIndex P xs = Some i \<Longrightarrow> i < length xs \<and> P (xs ! i)"
  by (induction xs arbitrary: i) (auto split: if_splits)

lemma find_Some_set: "find P xs = Some x \<Longrightarrow> x \<in> set xs \<and> P x"
  by (induction xs) (auto split: if_splits)

lemma commitChips_eq:
  "fst (commitChips r i w) =
     r\<lparr>pot := pot r + max 0 (min w (stack (players r ! i))),
       players := (players r)[i := pays w (players r ! i)]\<rparr>"
  by (simp add: commitChips_def pays_def Let_def)

lemma pays_fields [simp]:
  "seat (pays w p) = seat p" "hole (pays w p) = hole p" "folded (pays w p) = folded p"
  "pid (pays w p) = pid p" "bot (pays w p) = bot p"
  by (simp_all add: pays_def Let_def)

lemma pays_busted: "chipsOk p \<Longrightarrow> chipsOk (pays w p)"
  by (auto simp: chipsOk_def pays_def Let_def split: if_splits)

lemma chipsOk_upd [simp]:
  "chipsOk (p\<lparr>hasActed := a\<rparr>) = chipsOk p" "chipsOk (p\<lparr>betThisRound := b\<rparr>) = chipsOk p"
  "chipsOk (p\<lparr>connected := c\<rparr>) = chipsOk p"
  by (simp_all add: chipsOk_def)

lemma chipsOk_fold: "chipsOk p \<Longrightarrow> chipsOk (p\<lparr>folded := True\<rparr>)"
  by (auto simp: chipsOk_def)

subsection \<open>Seat scan\<close>

lemma seatScan_Some:
  "seatScan r incF incA req n s = Some t \<Longrightarrow>
     t < MAX_PLAYERS \<and> (\<exists>p. find (\<lambda>x. seat x = t) (players r) = Some p
        \<and> (incF \<or> \<not> folded p) \<and> (incA \<or> \<not> allIn p) \<and> (req \<longrightarrow> 0 < stack p))"
proof (induction n arbitrary: s)
  case 0
  then show ?case by simp
next
  case (Suc n)
  have m: "(s + 1) mod MAX_PLAYERS < MAX_PLAYERS" by (simp add: MAX_PLAYERS_def)
  from Suc.prems show ?case
    using Suc.IH [of "(s + 1) mod MAX_PLAYERS"] m
    by (auto simp: Let_def split: option.splits if_splits)
qed

lemma nextActiveSeat_Some:
  "nextActiveSeat r fromSeat incF incA req = Some t \<Longrightarrow>
     t < MAX_PLAYERS \<and> (\<exists>p. find (\<lambda>x. seat x = t) (players r) = Some p
        \<and> (incF \<or> \<not> folded p) \<and> (incA \<or> \<not> allIn p) \<and> (req \<longrightarrow> 0 < stack p))"
  by (auto simp: nextActiveSeat_def dest: seatScan_Some split: if_splits)

lemma find_unique_seat:
  assumes "distinct (map seat ps)" "find (\<lambda>x. seat x = t) ps = Some p" "q \<in> set ps" "seat q = t"
  shows "q = p"
proof -
  from assms(2) have "p \<in> set ps" "seat p = t" by (auto dest: find_Some_set)
  with assms(1,3,4) show ?thesis by (metis distinct_map inj_on_def)
qed

lemma nextActiveSeat_live:
  assumes "distinct (map seat (players r))" "nextActiveSeat r fromSeat False incA req = Some t"
    "q \<in> set (players r)" "seat q = t"
  shows "\<not> folded q"
proof -
  from nextActiveSeat_Some [OF assms(2)] obtain p where
    p: "find (\<lambda>x. seat x = t) (players r) = Some p" "\<not> folded p" by auto
  from find_unique_seat [OF assms(1) p(1) assms(3,4)] p(2) show ?thesis by simp
qed

subsection \<open>Frames\<close>

lemma sameCards_refl [simp]: "sameCards r r"
  by (simp add: sameCards_def)

lemma sameCards_trans: "sameCards r r1 \<Longrightarrow> sameCards r1 r2 \<Longrightarrow> sameCards r r2"
  by (simp add: sameCards_def)

lemma set_seat_eq: "map seat xs = map seat ys \<Longrightarrow> seat ` set xs = seat ` set ys"
  by (metis set_map)

lemma sameCards_inv:
  assumes "sameCards r r'"
  shows "cardsOk r' = cardsOk r" "stageOk r' = stageOk r" "holeCount r' = holeCount r"
    "seatsOk r' = seatsOk r"
proof -
  from assms have m: "map seat (players r') = map seat (players r)" by (simp add: sameCards_def)
  show "cardsOk r' = cardsOk r" "stageOk r' = stageOk r" "holeCount r' = holeCount r"
    using assms by (simp_all add: sameCards_def cardsOk_def cards_def stageOk_def holeCount_def)
  have "(\<forall>p \<in> set (players r'). seat p < MAX_PLAYERS) = (\<forall>s \<in> seat ` set (players r'). s < MAX_PLAYERS)"
    by auto
  also have "\<dots> = (\<forall>s \<in> seat ` set (players r). s < MAX_PLAYERS)"
    using set_seat_eq [OF m] by simp
  also have "\<dots> = (\<forall>p \<in> set (players r). seat p < MAX_PLAYERS)" by auto
  finally show "seatsOk r' = seatsOk r" by (simp add: seatsOk_def m)
qed

lemma sameCards_commitChips: "sameCards r (fst (commitChips r i w))"
  by (simp add: sameCards_def commitChips_eq map_upd_same)

lemma sameCards_markActed: "sameCards r (markActed i r)"
  by (simp add: sameCards_def markActed_def map_upd_same)

lemma sameCards_reopenOthers: "sameCards r (reopenOthers me r)"
  by (simp add: sameCards_def reopenOthers_def comp_def if_distrib [of hole] if_distrib [of seat])

lemma bustedFolded_commitChips: "bustedFolded r \<Longrightarrow> bustedFolded (fst (commitChips r i w))"
  unfolding bustedFolded_def commitChips_eq
  by (simp, rule ball_upd) (auto intro: pays_busted)

lemma committed_commitChips:
  "\<forall>p \<in> set (players r). 0 \<le> committed p
    \<Longrightarrow> \<forall>p \<in> set (players (fst (commitChips r i w))). 0 \<le> committed p"
  unfolding commitChips_eq
  by (simp, rule ball_upd) (auto simp: pays_def Let_def)

lemma bustedFolded_markActed: "bustedFolded r \<Longrightarrow> bustedFolded (markActed i r)"
  unfolding bustedFolded_def markActed_def
  by (simp, rule ball_upd) auto

lemma bustedFolded_reopenOthers: "bustedFolded r \<Longrightarrow> bustedFolded (reopenOthers me r)"
  by (auto simp: bustedFolded_def reopenOthers_def)

lemma commitChips_misc [simp]:
  "currentSeat (fst (commitChips r i w)) = currentSeat r"
  "dealerSeat (fst (commitChips r i w)) = dealerSeat r"
  "smallBlind (fst (commitChips r i w)) = smallBlind r"
  "bigBlind (fst (commitChips r i w)) = bigBlind r"
  "length (players (fst (commitChips r i w))) = length (players r)"
  "map folded (players (fst (commitChips r i w))) = map folded (players r)"
  by (simp_all add: commitChips_eq map_upd_same)

lemma markActed_misc [simp]:
  "currentSeat (markActed i r) = currentSeat r"
  "length (players (markActed i r)) = length (players r)"
  "map folded (players (markActed i r)) = map folded (players r)"
  by (simp_all add: markActed_def map_upd_same)

lemma reopenOthers_misc [simp]:
  "currentSeat (reopenOthers me r) = currentSeat r"
  "length (players (reopenOthers me r)) = length (players r)"
  "map folded (players (reopenOthers me r)) = map folded (players r)"
  by (simp_all add: reopenOthers_def comp_def if_distrib [of folded])

lemma commitChips_cards [simp]:
  "deck (fst (commitChips r i w)) = deck r" "community (fst (commitChips r i w)) = community r"
  "stage (fst (commitChips r i w)) = stage r" "state (fst (commitChips r i w)) = state r"
  "map hole (players (fst (commitChips r i w))) = map hole (players r)"
  "map seat (players (fst (commitChips r i w))) = map seat (players r)"
  using sameCards_commitChips [of r i w] by (simp_all add: sameCards_def)

lemma markActed_cards [simp]:
  "deck (markActed i r) = deck r" "community (markActed i r) = community r"
  "stage (markActed i r) = stage r" "state (markActed i r) = state r"
  "map hole (players (markActed i r)) = map hole (players r)"
  "map seat (players (markActed i r)) = map seat (players r)"
  using sameCards_markActed [of r i] by (simp_all add: sameCards_def)

lemma reopenOthers_cards [simp]:
  "deck (reopenOthers me r) = deck r" "community (reopenOthers me r) = community r"
  "stage (reopenOthers me r) = stage r" "state (reopenOthers me r) = state r"
  "map hole (players (reopenOthers me r)) = map hole (players r)"
  "map seat (players (reopenOthers me r)) = map seat (players r)"
  using sameCards_reopenOthers [of r me] by (simp_all add: sameCards_def)

lemma bustedFolded_upd [simp]:
  "bustedFolded (r\<lparr>currentBet := a\<rparr>) = bustedFolded r"
  "bustedFolded (r\<lparr>minRaise := b\<rparr>) = bustedFolded r"
  "bustedFolded (r\<lparr>lastAggressorSeat := c\<rparr>) = bustedFolded r"
  "bustedFolded (r\<lparr>botTimer := d\<rparr>) = bustedFolded r"
  "bustedFolded (r\<lparr>currentSeat := e\<rparr>) = bustedFolded r"
  by (simp_all add: bustedFolded_def)

lemma betOrRaise_frame:
  assumes "betOrRaise r i amt = Some r1"
  shows "sameCards r r1" "bustedFolded r \<Longrightarrow> bustedFolded r1" "currentSeat r1 = currentSeat r"
    "map folded (players r1) = map folded (players r)"
  using assms
  by (auto simp: betOrRaise_def Let_def sameCards_def
           intro!: bustedFolded_markActed bustedFolded_reopenOthers bustedFolded_commitChips
           split: if_splits)

lemma goAllIn_frame:
  assumes "goAllIn r i = Some r1"
  shows "sameCards r r1" "bustedFolded r \<Longrightarrow> bustedFolded r1" "currentSeat r1 = currentSeat r"
    "map folded (players r1) = map folded (players r)"
  using assms
  by (auto simp: goAllIn_def Let_def sameCards_def
           intro!: bustedFolded_markActed bustedFolded_reopenOthers bustedFolded_commitChips
           split: if_splits)

lemma applyAction_frame:
  assumes "applyAction r i act amt = Some r1"
  shows "sameCards r r1" "bustedFolded r \<Longrightarrow> bustedFolded r1" "currentSeat r1 = currentSeat r"
proof -
  show "sameCards r r1"
    using assms betOrRaise_frame(1) goAllIn_frame(1)
    by (cases act) (auto simp: applyAction_def Let_def sameCards_def map_upd_same2 split: if_splits)
  show "currentSeat r1 = currentSeat r"
    using assms betOrRaise_frame(3) goAllIn_frame(3)
    by (cases act) (auto simp: applyAction_def Let_def split: if_splits)
  show "bustedFolded r1" if b: "bustedFolded r"
  proof (cases act)
    case Fold
    have "\<forall>p \<in> set ((players r)[i := (players r ! i)\<lparr>folded := True, hasActed := True\<rparr>]).
            chipsOk p"
      by (rule ball_upd) (use b in \<open>auto simp: bustedFolded_def intro: chipsOk_fold\<close>)
    with Fold assms show ?thesis by (auto simp: applyAction_def Let_def bustedFolded_def)
  qed (use assms b betOrRaise_frame(2) goAllIn_frame(2) in
        \<open>auto simp: applyAction_def Let_def intro!: bustedFolded_markActed bustedFolded_commitChips split: if_splits\<close>)
qed

subsection \<open>Cards\<close>

lemma pop_mset:
  "d \<noteq> [] \<Longrightarrow> pop d = (c, d1) \<Longrightarrow> mset (map Some d1) + {#c#} = mset (map Some d) \<and> Suc (length d1) = length d"
proof -
  assume d: "d \<noteq> []" and p: "pop d = (c, d1)"
  then have c: "c = Some (last d)" "d1 = butlast d" by (auto simp: pop_def)
  from d obtain ys y where "d = ys @ [y]" by (metis rev_exhaust)
  then show ?thesis using c by simp
qed

lemma popN_mset:
  "n \<le> length d \<Longrightarrow> popN n d = (cs, d1) \<Longrightarrow>
     mset (map Some d1) + mset cs = mset (map Some d) \<and> length cs = n"
proof (induction n arbitrary: d cs d1)
  case 0
  then show ?case by simp
next
  case (Suc n)
  from Suc.prems(1) have ne: "d \<noteq> []" by auto
  obtain c d' where p: "pop d = (c, d')" by (cases "pop d")
  obtain cs' d'' where q: "popN n d' = (cs', d'')" by (cases "popN n d'")
  from pop_mset [OF ne p] have 1: "mset (map Some d') + {#c#} = mset (map Some d)"
    and l: "Suc (length d') = length d" by auto
  from l Suc.prems(1) have "n \<le> length d'" by simp
  from Suc.IH [OF this q] have 2: "mset (map Some d'') + mset cs' = mset (map Some d')"
    and l2: "length cs' = n" by auto
  from Suc.prems(2) p q have e: "cs = c # cs'" "d1 = d''" by auto
  show ?case using 1 2 l2 e by (simp add: add.assoc [symmetric])
qed

lemma cards_length:
  "cardsOk r \<Longrightarrow> length (deck r) + holeCount r + length (community r) = 52"
proof -
  assume "cardsOk r"
  then have "size (mset (cards r)) = size (mset (map Some unshuffled))"
    by (simp add: cardsOk_def)
  then have "length (cards r) = length unshuffled" by simp
  then show ?thesis
    by (simp add: cards_def holeCount_def unshuffled_def RANKS_def SUITS_def)
qed

lemma pushCommunity_cards:
  assumes "cardsOk r" "n \<le> length (deck r)"
  shows "cardsOk (pushCommunity n r)" "length (community (pushCommunity n r)) = length (community r) + n"
proof -
  obtain cs d1 where p: "popN n (deck r) = (cs, d1)" by (cases "popN n (deck r)")
  from popN_mset [OF assms(2) p]
  have m: "mset (map Some d1) + mset cs = mset (map Some (deck r))" and l: "length cs = n" by auto
  have "mset (cards (pushCommunity n r)) = mset (cards r)"
    using m [symmetric] by (simp add: pushCommunity_def p cards_def)
  with assms(1) show "cardsOk (pushCommunity n r)" by (simp add: cardsOk_def)
  show "length (community (pushCommunity n r)) = length (community r) + n"
    using l by (simp add: pushCommunity_def p)
qed

lemma pushCommunity_misc [simp]:
  "players (pushCommunity n r) = players r" "state (pushCommunity n r) = state r"
  "stage (pushCommunity n r) = stage r" "currentSeat (pushCommunity n r) = currentSeat r"
  "dealerSeat (pushCommunity n r) = dealerSeat r" "bigBlind (pushCommunity n r) = bigBlind r"
  by (simp_all add: pushCommunity_def split: prod.splits)

lemma cardsOk_upd [simp]:
  "cardsOk (r\<lparr>stage := s\<rparr>) = cardsOk r" "cardsOk (r\<lparr>state := t\<rparr>) = cardsOk r"
  "cardsOk (r\<lparr>currentSeat := c\<rparr>) = cardsOk r" "cardsOk (r\<lparr>botTimer := b\<rparr>) = cardsOk r"
  "cardsOk (r\<lparr>currentBet := x\<rparr>) = cardsOk r" "cardsOk (r\<lparr>minRaise := y\<rparr>) = cardsOk r"
  "cardsOk (r\<lparr>lastAggressorSeat := z\<rparr>) = cardsOk r" "cardsOk (r\<lparr>dealerSeat := w\<rparr>) = cardsOk r"
  "cardsOk (r\<lparr>hostId := h\<rparr>) = cardsOk r" "cardsOk (r\<lparr>smallBlind := x\<rparr>) = cardsOk r"
  "cardsOk (r\<lparr>bigBlind := x\<rparr>) = cardsOk r" "cardsOk (r\<lparr>pot := x\<rparr>) = cardsOk r"
  by (simp_all add: cardsOk_def cards_def)

lemma holeCount_upd [simp]:
  "holeCount (r\<lparr>stage := s\<rparr>) = holeCount r" "holeCount (r\<lparr>state := t\<rparr>) = holeCount r"
  "holeCount (r\<lparr>currentSeat := c\<rparr>) = holeCount r" "holeCount (r\<lparr>botTimer := b\<rparr>) = holeCount r"
  "holeCount (r\<lparr>currentBet := x\<rparr>) = holeCount r" "holeCount (r\<lparr>minRaise := y\<rparr>) = holeCount r"
  "holeCount (r\<lparr>lastAggressorSeat := z\<rparr>) = holeCount r" "holeCount (r\<lparr>dealerSeat := w\<rparr>) = holeCount r"
  "holeCount (r\<lparr>hostId := h\<rparr>) = holeCount r" "holeCount (r\<lparr>smallBlind := x\<rparr>) = holeCount r"
  "holeCount (r\<lparr>bigBlind := x\<rparr>) = holeCount r" "holeCount (r\<lparr>pot := x\<rparr>) = holeCount r"
  "holeCount (r\<lparr>deck := d\<rparr>) = holeCount r" "holeCount (r\<lparr>community := cm\<rparr>) = holeCount r"
  by (simp_all add: holeCount_def)

lemma seatsOk_upd [simp]:
  "seatsOk (r\<lparr>stage := s\<rparr>) = seatsOk r" "seatsOk (r\<lparr>state := t\<rparr>) = seatsOk r"
  "seatsOk (r\<lparr>currentSeat := c\<rparr>) = seatsOk r" "seatsOk (r\<lparr>botTimer := b\<rparr>) = seatsOk r"
  "seatsOk (r\<lparr>currentBet := x\<rparr>) = seatsOk r" "seatsOk (r\<lparr>minRaise := y\<rparr>) = seatsOk r"
  "seatsOk (r\<lparr>lastAggressorSeat := z\<rparr>) = seatsOk r" "seatsOk (r\<lparr>dealerSeat := w\<rparr>) = seatsOk r"
  "seatsOk (r\<lparr>hostId := h\<rparr>) = seatsOk r" "seatsOk (r\<lparr>smallBlind := x\<rparr>) = seatsOk r"
  "seatsOk (r\<lparr>bigBlind := x\<rparr>) = seatsOk r" "seatsOk (r\<lparr>pot := x\<rparr>) = seatsOk r"
  "seatsOk (r\<lparr>deck := d\<rparr>) = seatsOk r" "seatsOk (r\<lparr>community := cm\<rparr>) = seatsOk r"
  by (simp_all add: seatsOk_def)

lemma stageOk_upd [simp]:
  "stageOk (r\<lparr>state := t\<rparr>) = stageOk r"
  "stageOk (r\<lparr>currentSeat := c\<rparr>) = stageOk r" "stageOk (r\<lparr>botTimer := b\<rparr>) = stageOk r"
  "stageOk (r\<lparr>currentBet := x\<rparr>) = stageOk r" "stageOk (r\<lparr>minRaise := y\<rparr>) = stageOk r"
  "stageOk (r\<lparr>lastAggressorSeat := z\<rparr>) = stageOk r" "stageOk (r\<lparr>dealerSeat := w\<rparr>) = stageOk r"
  "stageOk (r\<lparr>hostId := h\<rparr>) = stageOk r" "stageOk (r\<lparr>smallBlind := x\<rparr>) = stageOk r"
  "stageOk (r\<lparr>bigBlind := x\<rparr>) = stageOk r" "stageOk (r\<lparr>pot := x\<rparr>) = stageOk r"
  "stageOk (r\<lparr>deck := d\<rparr>) = stageOk r" "stageOk (r\<lparr>players := ps\<rparr>) = stageOk r"
  by (simp_all add: stageOk_def)

lemma bustedFolded_upd2 [simp]:
  "bustedFolded (r\<lparr>stage := s\<rparr>) = bustedFolded r" "bustedFolded (r\<lparr>state := t\<rparr>) = bustedFolded r"
  "bustedFolded (r\<lparr>dealerSeat := w\<rparr>) = bustedFolded r"
  "bustedFolded (r\<lparr>hostId := h\<rparr>) = bustedFolded r" "bustedFolded (r\<lparr>smallBlind := x\<rparr>) = bustedFolded r"
  "bustedFolded (r\<lparr>bigBlind := x\<rparr>) = bustedFolded r" "bustedFolded (r\<lparr>pot := x\<rparr>) = bustedFolded r"
  "bustedFolded (r\<lparr>deck := d\<rparr>) = bustedFolded r" "bustedFolded (r\<lparr>community := cm\<rparr>) = bustedFolded r"
  by (simp_all add: bustedFolded_def)

lemma actorLive_upd [simp]:
  "actorLive (r\<lparr>stage := s\<rparr>) = actorLive r" "actorLive (r\<lparr>state := t\<rparr>) = actorLive r"
  "actorLive (r\<lparr>botTimer := b\<rparr>) = actorLive r"
  "actorLive (r\<lparr>currentBet := x\<rparr>) = actorLive r" "actorLive (r\<lparr>minRaise := y\<rparr>) = actorLive r"
  "actorLive (r\<lparr>lastAggressorSeat := z\<rparr>) = actorLive r" "actorLive (r\<lparr>dealerSeat := w\<rparr>) = actorLive r"
  "actorLive (r\<lparr>hostId := h\<rparr>) = actorLive r" "actorLive (r\<lparr>smallBlind := x\<rparr>) = actorLive r"
  "actorLive (r\<lparr>bigBlind := x\<rparr>) = actorLive r" "actorLive (r\<lparr>pot := x\<rparr>) = actorLive r"
  "actorLive (r\<lparr>deck := d\<rparr>) = actorLive r" "actorLive (r\<lparr>community := cm\<rparr>) = actorLive r"
  by (simp_all add: actorLive_def)

lemma pushCommunity_inv [simp]:
  "seatsOk (pushCommunity n r) = seatsOk r" "holeCount (pushCommunity n r) = holeCount r"
  "bustedFolded (pushCommunity n r) = bustedFolded r"
  by (simp_all add: seatsOk_def holeCount_def bustedFolded_def)

lemma broadcastRoom_misc [simp]:
  "state (broadcastRoom r) = state r" "players (broadcastRoom r) = players r"
  "stage (broadcastRoom r) = stage r" "deck (broadcastRoom r) = deck r"
  "community (broadcastRoom r) = community r" "currentSeat (broadcastRoom r) = currentSeat r"
  using scheduleBot_eq [of r] by auto

lemma broadcastRoom_inv [simp]:
  "seatsOk (broadcastRoom r) = seatsOk r" "cardsOk (broadcastRoom r) = cardsOk r"
  "stageOk (broadcastRoom r) = stageOk r" "holeCount (broadcastRoom r) = holeCount r"
  "bustedFolded (broadcastRoom r) = bustedFolded r" "actorLive (broadcastRoom r) = actorLive r"
  using scheduleBot_eq [of r] by auto

subsection \<open>Streets and actions\<close>

lemma actorLive_next:
  assumes "distinct (map seat (players r))"
  shows "actorLive (r\<lparr>currentSeat := nextActiveSeat r fromSeat False incA req\<rparr>)"
  unfolding actorLive_def
proof (intro ballI impI)
  fix p assume p: "p \<in> set (players (r\<lparr>currentSeat := nextActiveSeat r fromSeat False incA req\<rparr>))"
     and s: "Some (seat p) = currentSeat (r\<lparr>currentSeat := nextActiveSeat r fromSeat False incA req\<rparr>)"
  from s have "nextActiveSeat r fromSeat False incA req = Some (seat p)" by simp
  from nextActiveSeat_live [OF assms this, of p] p show "\<not> folded p" by simp
qed

lemma moveToNextActor_inv:
  "sameCards r (moveToNextActor r)" "bustedFolded (moveToNextActor r) = bustedFolded r"
  "seatsOk r \<Longrightarrow> actorLive (moveToNextActor r)"
  by (simp_all add: moveToNextActor_def sameCards_def seatsOk_def actorLive_next)

lemma startBettingRound_eq:
  "startBettingRound r =
     (roundReset r)\<lparr>currentSeat := nextActiveSeat (roundReset r) (dealerSeat r) False False False\<rparr>"
  by (simp add: startBettingRound_def roundReset_def Let_def)

lemma roundReset_inv:
  "sameCards r (roundReset r)" "bustedFolded r \<Longrightarrow> bustedFolded (roundReset r)"
  by (auto simp: roundReset_def sameCards_def bustedFolded_def comp_def
                 if_distrib [of hole] if_distrib [of seat])

lemma startBettingRound_inv:
  "sameCards r (startBettingRound r)" "bustedFolded r \<Longrightarrow> bustedFolded (startBettingRound r)"
  "seatsOk r \<Longrightarrow> actorLive (startBettingRound r)"
proof -
  show "sameCards r (startBettingRound r)"
    using roundReset_inv(1) [of r] by (simp add: startBettingRound_eq sameCards_def)
  show "bustedFolded r \<Longrightarrow> bustedFolded (startBettingRound r)"
    using roundReset_inv(2) [of r] by (simp add: startBettingRound_eq)
  assume "seatsOk r"
  then have "seatsOk (roundReset r)" using sameCards_inv(4) [OF roundReset_inv(1)] by simp
  then show "actorLive (startBettingRound r)"
    unfolding startBettingRound_eq by (intro actorLive_next) (simp add: seatsOk_def)
qed

text \<open>A street that stays in the hand keeps the hand invariant.\<close>

lemma street_inv:
  assumes "seatsOk r" "cardsOk r" "holeCount r \<le> 2 * MAX_PLAYERS" "bustedFolded r"
    "n \<le> length (deck r)" "length (community r) + n = (case s of Preflop \<Rightarrow> 0 | Flop \<Rightarrow> 3 | Turn \<Rightarrow> 4 | River \<Rightarrow> 5)"
  shows "seatsOk (startBettingRound (pushCommunity n (r\<lparr>stage := s\<rparr>)))"
    "handInv (startBettingRound (pushCommunity n (r\<lparr>stage := s\<rparr>)))"
    "state (startBettingRound (pushCommunity n (r\<lparr>stage := s\<rparr>))) = state r"
proof -
  let ?a = "pushCommunity n (r\<lparr>stage := s\<rparr>)"
  let ?b = "startBettingRound ?a"
  have sc: "sameCards ?a ?b" by (rule startBettingRound_inv(1))
  have a: "cardsOk ?a" "length (community ?a) = length (community r) + n"
    using pushCommunity_cards [of "r\<lparr>stage := s\<rparr>" n] assms(2,5) by simp_all
  have "stageOk ?a" using a(2) assms(6) by (simp add: stageOk_def)
  moreover have "seatsOk ?a" using assms(1) by simp
  moreover have "holeCount ?a \<le> 2 * MAX_PLAYERS" using assms(3) by simp
  moreover have "bustedFolded ?a" using assms(4) by simp
  ultimately show "seatsOk ?b" "handInv ?b"
    using a(1) sameCards_inv [OF sc] startBettingRound_inv(2,3) [of ?a]
    by (simp_all add: handInv_def)
  show "state ?b = state r" using sc by (simp add: sameCards_def)
qed

lemma deck_enough:
  assumes "cardsOk r" "stageOk r" "holeCount r \<le> 2 * MAX_PLAYERS"
  shows "31 \<le> length (deck r)"
proof -
  have "length (community r) \<le> 5" using assms(2) by (simp add: stageOk_def split: stage.splits)
  with cards_length [OF assms(1)] assms(3) show ?thesis by (simp add: MAX_PLAYERS_def)
qed

lemma advanceStage_inv:
  assumes "seatsOk r" "state r = Hand" "cardsOk r" "stageOk r" "holeCount r \<le> 2 * MAX_PLAYERS" "bustedFolded r"
  shows "roomInv (fst (advanceStage r))"
proof -
  from deck_enough [OF assms(3,4,5)] have d: "3 \<le> length (deck r)" "1 \<le> length (deck r)" by simp_all
  show ?thesis
  proof (cases "stage r")
    case Preflop
    with assms(4) have "length (community r) + 3 = (case Flop of Preflop \<Rightarrow> 0 | Flop \<Rightarrow> 3 | Turn \<Rightarrow> 4 | River \<Rightarrow> 5)"
      by (simp add: stageOk_def)
    from street_inv [OF assms(1,3,5,6) d(1) this] Preflop assms(2) show ?thesis
      by (simp add: advanceStage_def roomInv_def)
  next
    case Flop
    with assms(4) have "length (community r) + 1 = (case Turn of Preflop \<Rightarrow> 0 | Flop \<Rightarrow> 3 | Turn \<Rightarrow> 4 | River \<Rightarrow> 5)"
      by (simp add: stageOk_def)
    from street_inv [OF assms(1,3,5,6) d(2) this] Flop assms(2) show ?thesis
      by (simp add: advanceStage_def roomInv_def)
  next
    case Turn
    with assms(4) have "length (community r) + 1 = (case River of Preflop \<Rightarrow> 0 | Flop \<Rightarrow> 3 | Turn \<Rightarrow> 4 | River \<Rightarrow> 5)"
      by (simp add: stageOk_def)
    from street_inv [OF assms(1,3,5,6) d(2) this] Turn assms(2) show ?thesis
      by (simp add: advanceStage_def roomInv_def)
  next
    case River
    then show ?thesis using assms(1,3) by (simp add: advanceStage_def roomInv_def)
  qed
qed

lemma fastForward_players: "players (fastForward r) = players r"
proof (induction r rule: fastForward.induct)
  case (1 r)
  show ?case
  proof (cases "state r \<noteq> Hand \<or> stillCanAct r")
    case True
    then show ?thesis by (auto simp: fastForward.simps [of r])
  next
    case False
    then show ?thesis
      using "1.IH" [OF _ _ refl]
      by (subst fastForward.simps) (auto simp: Let_def split: stage.splits)
  qed
qed

lemma fastForward_leaves:
  "state r = Hand \<Longrightarrow> \<not> stillCanAct r \<Longrightarrow> state (fastForward r) \<noteq> Hand"
proof (induction r rule: fastForward.induct)
  case (1 r)
  let ?r1 = "(case stage r of
                        Preflop \<Rightarrow> (pushCommunity 3 r)\<lparr>stage := Flop\<rparr>
                      | Flop \<Rightarrow> (pushCommunity 1 r)\<lparr>stage := Turn\<rparr>
                      | Turn \<Rightarrow> (pushCommunity 1 r)\<lparr>stage := River\<rparr>
                      | River \<Rightarrow> r\<lparr>state := Reveal, currentSeat := None\<rparr>)"
  have ns: "state ?r1 \<noteq> Showdown" using "1.prems" by (auto split: stage.splits)
  have eq: "fastForward r = fastForward ?r1"
    using "1.prems" ns by (subst fastForward.simps) (simp add: Let_def)
  have st: "\<not> stillCanAct ?r1" using "1.prems" by (auto simp: stillCanAct_def split: stage.splits)
  show ?case
  proof (cases "state ?r1 = Hand")
    case True
    from "1.IH" [OF _ _ refl ns True st] "1.prems" show ?thesis by (simp add: eq)
  next
    case False
    then have "fastForward ?r1 = ?r1" by (subst fastForward.simps) simp
    with False show ?thesis by (simp add: eq)
  qed
qed

text \<open>The streets dealt while nobody can act keep the cards in order.\<close>

lemma fastForward_cards:
  "cardsOk r \<Longrightarrow> stageOk r \<Longrightarrow> holeCount r \<le> 2 * MAX_PLAYERS \<Longrightarrow> cardsOk (fastForward r)"
proof (induction r rule: fastForward.induct)
  case (1 r)
  show ?case
  proof (cases "state r \<noteq> Hand \<or> stillCanAct r")
    case True
    then show ?thesis using "1.prems"(1) by (auto simp: fastForward.simps [of r])
  next
    case False
    let ?r1 = "(case stage r of
                        Preflop \<Rightarrow> (pushCommunity 3 r)\<lparr>stage := Flop\<rparr>
                      | Flop \<Rightarrow> (pushCommunity 1 r)\<lparr>stage := Turn\<rparr>
                      | Turn \<Rightarrow> (pushCommunity 1 r)\<lparr>stage := River\<rparr>
                      | River \<Rightarrow> r\<lparr>state := Reveal, currentSeat := None\<rparr>)"
    have ns: "state ?r1 \<noteq> Showdown" using False by (auto split: stage.splits)
    have eq: "fastForward r = fastForward ?r1"
      using False ns by (subst fastForward.simps) (simp add: Let_def)
    from deck_enough [OF "1.prems"] have d: "3 \<le> length (deck r)" "1 \<le> length (deck r)"
      by simp_all
    note p3 = pushCommunity_cards [OF "1.prems"(1) d(1)]
    note p1 = pushCommunity_cards [OF "1.prems"(1) d(2)]
    have c: "cardsOk ?r1" using p3(1) p1(1) "1.prems"(1) by (simp split: stage.splits)
    have s: "stageOk ?r1"
      using p3(2) p1(2) "1.prems"(2) by (auto simp: stageOk_def split: stage.splits)
    have h: "holeCount ?r1 \<le> 2 * MAX_PLAYERS" using "1.prems"(3) by (simp split: stage.splits)
    from "1.IH" [OF _ _ refl ns c s h] False show ?thesis by (simp add: eq)
  qed
qed

lemma fastForward_state: "state (fastForward r) = Hand \<Longrightarrow> fastForward r = r"
proof (cases "state r \<noteq> Hand \<or> stillCanAct r")
  case True
  then show ?thesis by (auto simp: fastForward.simps [of r])
next
  case False
  assume "state (fastForward r) = Hand"
  with fastForward_leaves [of r] False show ?thesis by simp
qed

lemma broadcastRoom_roomInv [simp]: "roomInv (broadcastRoom r) = roomInv r"
  by (simp add: roomInv_def handInv_def)

lemma awardPotTo_inv:
  "state (fst (awardPotTo r j)) = Reveal"
  "map seat (players (fst (awardPotTo r j))) = map seat (players r)"
  "cardsOk (fst (awardPotTo r j)) = cardsOk r"
  by (simp_all add: awardPotTo_def Let_def map_upd_same cardsOk_def cards_def)

lemma seatsOk_cong: "map seat (players r') = map seat (players r) \<Longrightarrow> seatsOk r' = seatsOk r"
proof -
  assume m: "map seat (players r') = map seat (players r)"
  have "(\<forall>p \<in> set (players r'). seat p < MAX_PLAYERS) = (\<forall>s \<in> seat ` set (players r'). s < MAX_PLAYERS)"
    by auto
  also have "\<dots> = (\<forall>s \<in> seat ` set (players r). s < MAX_PLAYERS)"
    using set_seat_eq [OF m] by simp
  also have "\<dots> = (\<forall>p \<in> set (players r). seat p < MAX_PLAYERS)" by auto
  finally show ?thesis by (simp add: seatsOk_def m)
qed

lemma awardPotTo_roomInv: "seatsOk r \<Longrightarrow> cardsOk r \<Longrightarrow> roomInv (fst (awardPotTo r j))"
  using awardPotTo_inv [of r j] seatsOk_cong [of "fst (awardPotTo r j)" r]
  by (simp add: roomInv_def)

lemma afterAction_inv:
  assumes "seatsOk r" "state r = Hand" "cardsOk r" "stageOk r" "holeCount r \<le> 2 * MAX_PLAYERS"
    "bustedFolded r"
  shows "roomInv (fst (afterAction r))"
proof -
  let ?r2 = "r\<lparr>botTimer := False\<rparr>"
  have r2: "seatsOk ?r2" "state ?r2 = Hand" "cardsOk ?r2" "stageOk ?r2"
    "holeCount ?r2 \<le> 2 * MAX_PLAYERS" "bustedFolded ?r2"
    using assms by simp_all
  show ?thesis
  proof (cases "loneSurvivor ?r2")
    case (Some j)
    then have "fst (afterAction r) = broadcastRoom (fst (awardPotTo ?r2 j))"
      by (simp add: afterAction_def Let_def split: prod.splits)
    with awardPotTo_roomInv [OF r2(1,3), of j] show ?thesis by simp
  next
    case None
    show ?thesis
    proof (cases "shouldEndBettingRound ?r2")
      case False
      with None have e: "fst (afterAction r) = broadcastRoom (moveToNextActor ?r2)"
        by (simp add: afterAction_def Let_def)
      have sc: "sameCards ?r2 (moveToNextActor ?r2)" by (rule moveToNextActor_inv(1))
      show ?thesis
        using r2 sameCards_inv [OF sc] moveToNextActor_inv(2,3) [of ?r2]
        by (simp add: e) (simp add: roomInv_def handInv_def)
    next
      case True
      show ?thesis
      proof (cases "state (fastForward ?r2) = Hand")
        case h: True
        then have ff: "fastForward ?r2 = ?r2" by (rule fastForward_state)
        have e: "fst (afterAction r) = broadcastRoom (fst (advanceStage ?r2))"
          using None True ff r2(2) by (simp add: afterAction_def Let_def split: prod.splits)
        from advanceStage_inv [OF r2] show ?thesis by (simp add: e)
      next
        case h: False
        then have e: "fst (afterAction r) = broadcastRoom (fastForward ?r2)"
          using None True by (simp add: afterAction_def Let_def split: prod.splits)
        have "seatsOk (fastForward ?r2)"
          using seatsOk_cong [of "fastForward ?r2" ?r2] r2(1) by (simp add: fastForward_players)
        moreover have "cardsOk (fastForward ?r2)" by (rule fastForward_cards [OF r2(3,4,5)])
        ultimately show ?thesis using h by (simp add: e) (simp add: roomInv_def)
      qed
    qed
  qed
qed

lemma handlePlayerAction_inv:
  assumes "roomInv r"
  shows "roomInv (fst (handlePlayerAction r i act amt))"
proof (cases "state r \<noteq> Hand \<or> currentSeat r = None \<or> Some (seat (players r ! i)) \<noteq> currentSeat r
               \<or> folded (players r ! i) \<or> allIn (players r ! i)")
  case True
  then show ?thesis using assms by (auto simp: handlePlayerAction_def Let_def)
next
  case False
  show ?thesis
  proof (cases "applyAction r i act amt")
    case None
    with False assms show ?thesis by (auto simp: handlePlayerAction_def Let_def)
  next
    case (Some r1)
    with False have e: "fst (handlePlayerAction r i act amt) = fst (afterAction r1)"
      by (auto simp: handlePlayerAction_def Let_def)
    from False assms have h: "seatsOk r" "state r = Hand" "handInv r" by (auto simp: roomInv_def)
    note f = applyAction_frame [OF Some]
    from sameCards_inv [OF f(1)] f(1) f(2) h
    have "seatsOk r1" "state r1 = Hand" "cardsOk r1" "stageOk r1" "holeCount r1 \<le> 2 * MAX_PLAYERS"
      "bustedFolded r1"
      by (simp_all add: handInv_def sameCards_def)
    from afterAction_inv [OF this] show ?thesis by (simp add: e)
  qed
qed

subsection \<open>Showdown\<close>

lemma applyPayout_seat: "map seat (players (applyPayout kv r)) = map seat (players r)"
  by (simp add: applyPayout_def map_upd_same split: option.splits)

lemma applyPayout_state: "state (applyPayout kv r) = state r"
  by (simp add: applyPayout_def split: option.splits)

lemma fold_applyPayout_seat: "map seat (players (fold applyPayout kvs r)) = map seat (players r)"
  by (induction kvs arbitrary: r) (simp_all add: applyPayout_seat)

lemma resolveShowdown_seat: "map seat (players (resolveShowdown H r)) = map seat (players r)"
  by (simp add: resolveShowdown_def Let_def fold_applyPayout_seat)




lemma showdownTimer_inv: "seatsOk r \<Longrightarrow> roomInv (fst (showdownTimer H v r))"
  using seatsOk_cong [of "resolveShowdown H r" r]
  by (simp add: showdownTimer_def Let_def roomInv_def resolveShowdown_seat)

subsection \<open>Starting a hand\<close>

lemma shuffleLoop_mset: "i < length arr \<Longrightarrow> mset (shuffleLoop rnd i arr) = mset arr"
proof (induction i arbitrary: arr)
  case 0
  then show ?case by simp
next
  case (Suc i)
  let ?j = "rnd (Suc i) mod (Suc i + 1)"
  have j: "?j < length arr" using Suc.prems by (simp add: less_le_trans [OF mod_less_divisor])
  have "mset (arr[Suc i := arr ! ?j, ?j := arr ! Suc i]) = mset arr"
    using mset_swap [OF j Suc.prems] .
  moreover have "i < length (arr[Suc i := arr ! ?j, ?j := arr ! Suc i])" using Suc.prems by simp
  ultimately show ?case using Suc.IH [of "arr[Suc i := arr ! ?j, ?j := arr ! Suc i]"]
    by (simp add: Let_def)
qed

lemma freshDeck_mset: "mset (freshDeck rnd) = mset unshuffled"
proof -
  have "length unshuffled = 52" by (simp add: unshuffled_def RANKS_def SUITS_def)
  then show ?thesis by (simp add: freshDeck_def shuffleInPlace_def shuffleLoop_mset)
qed

lemma players_le_MAX:
  assumes "seatsOk r"
  shows "length (players r) \<le> MAX_PLAYERS"
proof -
  from assms have d: "distinct (map seat (players r))" and
    s: "set (map seat (players r)) \<subseteq> {0..<MAX_PLAYERS}" by (auto simp: seatsOk_def)
  have "length (players r) = card (set (map seat (players r)))"
    using distinct_card [OF d] by simp
  also have "\<dots> \<le> card {0..<MAX_PLAYERS}" by (rule card_mono [OF _ s]) simp
  finally show ?thesis by simp
qed

lemma activeSeats_le: "length (activeSeats r) \<le> length (players r)"
proof -
  have "length (filter (\<lambda>p. stack p > 0) (seatedPlayers r)) \<le> length (seatedPlayers r)"
    by (rule length_filter_le)
  then show ?thesis by (simp add: activeSeats_def seatedPlayers_def)
qed

lemma activeSeats_mem:
  "d \<in> set (activeSeats r) \<Longrightarrow> \<exists>q \<in> set (players r). seat q = d \<and> 0 < stack q"
  by (auto simp: activeSeats_def seatedPlayers_def)

lemma resetForNewHand_inv:
  "state (resetForNewHand rnd r) = Hand" "stage (resetForNewHand rnd r) = Preflop"
  "community (resetForNewHand rnd r) = []" "cardsOk (resetForNewHand rnd r)"
  "holeCount (resetForNewHand rnd r) = 0" "bustedFolded (resetForNewHand rnd r)"
  "map seat (players (resetForNewHand rnd r)) = map seat (players r)"
  "map folded (players (resetForNewHand rnd r)) = map (\<lambda>p. stack p \<le> 0) (players r)"
  "dealerSeat (resetForNewHand rnd r) = dealerSeat r"
  "\<forall>p \<in> set (players (resetForNewHand rnd r)). 0 \<le> committed p"
proof -
  have "concat (map (hole \<circ> (\<lambda>p. p\<lparr>folded := (stack p \<le> 0), allIn := False, betThisRound := 0,
                               committed := 0, hole := [], hasActed := False\<rparr>)) (players r)) = []"
    by (induction "players r") auto
  then show "cardsOk (resetForNewHand rnd r)" "holeCount (resetForNewHand rnd r) = 0"
    by (simp_all add: resetForNewHand_def cardsOk_def cards_def holeCount_def freshDeck_mset)
qed (auto simp: resetForNewHand_def bustedFolded_def chipsOk_def)

lemma unact_inv:
  fixes rc :: room and a b :: int and c :: "nat option"
  defines "r' \<equiv> rc\<lparr>currentBet := a, minRaise := b, lastAggressorSeat := c,
                    players := map (\<lambda>p. if \<not> folded p \<and> \<not> allIn p
                                          then p\<lparr>hasActed := False\<rparr> else p) (players rc)\<rparr>"
  shows "sameCards rc r'" "bustedFolded rc \<Longrightarrow> bustedFolded r'"
  "map folded (players r') = map folded (players rc)" "dealerSeat r' = dealerSeat rc"
  "map committed (players r') = map committed (players rc)"
  by (auto simp: r'_def sameCards_def bustedFolded_def comp_def
                 if_distrib [of hole] if_distrib [of seat] if_distrib [of folded]
                 if_distrib [of committed])

lemma postBlinds_cases:
  assumes "postBlinds r = Inr (r3, x)"
  shows "r3 = r \<or> (\<exists>sb bb a b c.
           r3 = (fst (commitChips (fst (commitChips r sb (smallBlind r))) bb (bigBlind r)))
                   \<lparr>currentBet := a, minRaise := b, lastAggressorSeat := c,
                    players := map (\<lambda>p. if \<not> folded p \<and> \<not> allIn p
                                          then p\<lparr>hasActed := False\<rparr> else p)
                       (players (fst (commitChips (fst (commitChips r sb (smallBlind r))) bb (bigBlind r))))\<rparr>)"
proof (cases "length (activeSeats r) < 2")
  case True
  with assms show ?thesis by (simp add: postBlinds_def)
next
  case False
  let ?sbSeat = "(if length (activeSeats r) = 2 then dealerSeat r
                         else nextActiveSeat r (dealerSeat r) True True True)"
  let ?bbSeat = "nextActiveSeat r ?sbSeat True True True"
  from assms False obtain sb where sb: "findIndex (\<lambda>p. Some (seat p) = ?sbSeat) (players r) = Some sb"
    by (cases "findIndex (\<lambda>p. Some (seat p) = ?sbSeat) (players r)") (auto simp: postBlinds_def Let_def)
  from assms False sb obtain bb where bb: "findIndex (\<lambda>p. Some (seat p) = ?bbSeat) (players r) = Some bb"
    by (cases "findIndex (\<lambda>p. Some (seat p) = ?bbSeat) (players r)") (auto simp: postBlinds_def Let_def)
  from assms False sb bb show ?thesis
    by (intro disjI2 exI [of _ sb] exI [of _ bb]) (auto simp: postBlinds_def Let_def)
qed

lemma postBlinds_frame:
  assumes "postBlinds r = Inr (r3, x)"
  shows "sameCards r r3" "bustedFolded r \<Longrightarrow> bustedFolded r3"
    "map folded (players r3) = map folded (players r)" "dealerSeat r3 = dealerSeat r"
proof -
  let ?h = "\<lambda>p. if \<not> folded p \<and> \<not> allIn p then p\<lparr>hasActed := False\<rparr> else p"
  from postBlinds_cases [OF assms] consider "r3 = r"
    | sb bb a b c where "r3 = (fst (commitChips (fst (commitChips r sb (smallBlind r))) bb (bigBlind r)))
                   \<lparr>currentBet := a, minRaise := b, lastAggressorSeat := c,
                    players := map ?h
                       (players (fst (commitChips (fst (commitChips r sb (smallBlind r))) bb (bigBlind r))))\<rparr>"
    by blast
  then have "sameCards r r3 \<and> (bustedFolded r \<longrightarrow> bustedFolded r3)
    \<and> map folded (players r3) = map folded (players r) \<and> dealerSeat r3 = dealerSeat r"
  proof cases
    case 1
    then show ?thesis by simp
  next
    case 2
    let ?c = "fst (commitChips (fst (commitChips r sb (smallBlind r))) bb (bigBlind r))"
    have "sameCards r ?c" by (simp add: sameCards_def)
    moreover have "bustedFolded r \<longrightarrow> bustedFolded ?c" by (simp add: bustedFolded_commitChips)
    moreover have "map folded (players ?c) = map folded (players r)" "dealerSeat ?c = dealerSeat r"
      by simp_all
    ultimately show ?thesis
      unfolding 2 using unact_inv(1-4) [where rc = ?c and a = a and b = b and c = c]
      by (simp add: sameCards_def)
  qed
  then show "sameCards r r3" "bustedFolded r \<Longrightarrow> bustedFolded r3"
    "map folded (players r3) = map folded (players r)" "dealerSeat r3 = dealerSeat r"
    by simp_all
qed

lemma postBlinds_committed:
  assumes "postBlinds r = Inr (r3, x)" and nn: "\<forall>p \<in> set (players r). 0 \<le> committed p"
  shows "\<forall>p \<in> set (players r3). 0 \<le> committed p"
proof -
  let ?h = "\<lambda>p. if \<not> folded p \<and> \<not> allIn p then p\<lparr>hasActed := False\<rparr> else p"
  from postBlinds_cases [OF assms(1)] consider "r3 = r"
    | sb bb a b c where "r3 = (fst (commitChips (fst (commitChips r sb (smallBlind r))) bb (bigBlind r)))
                   \<lparr>currentBet := a, minRaise := b, lastAggressorSeat := c,
                    players := map ?h
                       (players (fst (commitChips (fst (commitChips r sb (smallBlind r))) bb (bigBlind r))))\<rparr>"
    by blast
  then show ?thesis
  proof cases
    case 1
    with nn show ?thesis by simp
  next
    case 2
    let ?c = "fst (commitChips (fst (commitChips r sb (smallBlind r))) bb (bigBlind r))"
    have c: "\<forall>p \<in> set (players ?c). 0 \<le> committed p"
      by (intro committed_commitChips nn)
    have "map committed (players r3) = map committed (players ?c)"
      unfolding 2 using unact_inv(5) [where rc = ?c and a = a and b = b and c = c] by simp
    then have "set (map committed (players r3)) = set (map committed (players ?c))" by simp
    then have "committed ` set (players r3) = committed ` set (players ?c)" by simp
    with c show ?thesis by (metis (no_types, lifting) image_iff)
  qed
qed

lemma chipView_maps:
  assumes "map chipView ps' = map chipView ps"
  shows "map seat ps' = map seat ps" "map folded ps' = map folded ps"
proof -
  have "map (fst \<circ> chipView) ps' = map (fst \<circ> chipView) ps"
    using assms by (metis map_map)
  then show "map seat ps' = map seat ps" by (simp add: comp_def chipView_def)
  have "map (snd \<circ> snd \<circ> snd \<circ> chipView) ps' = map (snd \<circ> snd \<circ> snd \<circ> chipView) ps"
    using assms by (metis map_map)
  then show "map folded ps' = map folded ps" by (simp add: comp_def chipView_def)
qed

lemma bustedFolded_view: "bustedFolded r = (\<forall>b \<in> set (map chipsOk (players r)). b)"
  by (auto simp: bustedFolded_def)

lemma bustedFolded_cong:
  "map chipsOk (players r') = map chipsOk (players r) \<Longrightarrow> bustedFolded r' = bustedFolded r"
  by (simp only: bustedFolded_view)

lemma findIndex_find: "findIndex P xs = Some i \<Longrightarrow> find P xs = Some (xs ! i)"
  by (induction xs arbitrary: i) (auto split: if_splits)

lemma seatHasChips_next: "seatHasChips r (nextActiveSeat r s incF incA True)"
proof (cases "nextActiveSeat r s incF incA True")
  case None
  then show ?thesis by (simp add: seatHasChips_def)
next
  case (Some t)
  from nextActiveSeat_Some [OF Some] show ?thesis by (auto simp: seatHasChips_def Some)
qed

lemma dealOne_ready:
  assumes "dealReady (r, s)"
  shows "dealReady (dealOne (r, s))"
proof -
  from assms have b: "bustedFolded r" and nn: "\<forall>p \<in> set (players r). 0 \<le> committed p"
    and sc: "seatHasChips r s" by (simp_all add: dealReady_def)
  define r1 where "r1 = fst (dealOne (r, s))"
  have s1: "snd (dealOne (r, s)) = nextActiveSeat r1 s True True True"
    by (simp add: dealOne_def Let_def r1_def)
  have "bustedFolded r1 \<and> (\<forall>p \<in> set (players r1). 0 \<le> committed p)"
  proof (cases "findIndex (\<lambda>x. Some (seat x) = s) (players r)")
    case None
    with b nn show ?thesis by (simp add: r1_def dealOne_def Let_def)
  next
    case (Some i)
    from findIndex_Some [OF Some] have i: "i < length (players r)"
      and si: "s = Some (seat (players r ! i))" by auto
    from findIndex_find [OF Some] have "find (\<lambda>x. seat x = seat (players r ! i)) (players r)
        = Some (players r ! i)" by (simp add: si)
    with sc have pos: "0 < stack (players r ! i)" by (simp add: seatHasChips_def si)
    obtain c d where p: "pop (deck r) = (c, d)" by (cases "pop (deck r)")
    from pos have r1: "r1 = r\<lparr>deck := d, players := (players r)
        [i := (players r ! i)\<lparr>hole := hole (players r ! i) @ [c]\<rparr>]\<rparr>"
      by (simp add: r1_def dealOne_def Let_def Some p)
    from i nn have ci: "0 \<le> committed (players r ! i)" by simp
    have "\<forall>p \<in> set ((players r)[i := (players r ! i)\<lparr>hole := hole (players r ! i) @ [c]\<rparr>]).
        chipsOk p"
      by (rule ball_upd) (use b pos ci in \<open>auto simp: bustedFolded_def chipsOk_def\<close>)
    moreover have "\<forall>p \<in> set ((players r)[i := (players r ! i)\<lparr>hole := hole (players r ! i) @ [c]\<rparr>]).
        0 \<le> committed p"
      by (rule ball_upd) (use nn ci in auto)
    ultimately show ?thesis by (simp add: r1 bustedFolded_def)
  qed
  then show ?thesis
    using seatHasChips_next [of r1 s True True]
    by (simp add: dealReady_def s1 r1_def [symmetric])
qed

lemma dealLoop_ready: "dealReady rs \<Longrightarrow> dealReady ((dealOne ^^ n) rs)"
proof (induction n)
  case 0
  then show ?case by simp
next
  case (Suc n)
  then have "dealReady ((dealOne ^^ n) rs)" by simp
  then have "dealReady (dealOne (fst ((dealOne ^^ n) rs), snd ((dealOne ^^ n) rs)))"
    by (intro dealOne_ready) simp
  then show ?case by simp
qed

lemma dealHoleCards_busted:
  assumes "bustedFolded r" "\<forall>p \<in> set (players r). 0 \<le> committed p"
  shows "bustedFolded (dealHoleCards r)"
proof -
  let ?n = "length (activeSeats r)"
  have "dealReady (r, nextActiveSeat r (dealerSeat r) True True True)"
    using assms seatHasChips_next [of r "dealerSeat r" True True] by (simp add: dealReady_def)
  from dealLoop_ready [OF dealLoop_ready [OF this, of ?n], of ?n]
  have "bustedFolded (fst ((dealOne ^^ ?n) ((dealOne ^^ ?n)
          (r, nextActiveSeat r (dealerSeat r) True True True))))"
    by (simp add: dealReady_def)
  with assms(1) show ?thesis by (simp add: dealHoleCards_def Let_def)
qed

lemma hole_push_mset:
  "i < length ps \<Longrightarrow>
     mset (concat (map hole (ps[i := (ps ! i)\<lparr>hole := hole (ps ! i) @ [c]\<rparr>])))
       = mset (concat (map hole ps)) + {#c#}"
  by (induction ps arbitrary: i) (auto split: nat.splits)

lemma hole_push_length:
  "i < length ps \<Longrightarrow>
     length (concat (map hole (ps[i := (ps ! i)\<lparr>hole := hole (ps ! i) @ [c]\<rparr>])))
       = Suc (length (concat (map hole ps)))"
  by (induction ps arbitrary: i) (auto split: nat.splits)

lemma dealOne_inv:
  assumes "cardsOk r" "deck r \<noteq> []"
  shows "cardsOk (fst (dealOne (r, s)))" "holeCount (fst (dealOne (r, s))) \<le> Suc (holeCount r)"
    "dealFrame r (fst (dealOne (r, s)))"
proof -
  obtain c d where p: "pop (deck r) = (c, d)" by (cases "pop (deck r)")
  from pop_mset [OF assms(2) p] have m: "mset (map Some d) + {#c#} = mset (map Some (deck r))" by simp
  show "cardsOk (fst (dealOne (r, s)))"
  proof (cases "findIndex (\<lambda>x. Some (seat x) = s) (players r)")
    case None
    with assms(1) show ?thesis by (simp add: dealOne_def Let_def)
  next
    case (Some i)
    then have i: "i < length (players r)" by (simp add: findIndex_Some)
    show ?thesis
      using assms(1) hole_push_mset [OF i, of c] m [symmetric]
      by (simp add: dealOne_def Let_def Some p cardsOk_def cards_def)
  qed
  show "holeCount (fst (dealOne (r, s))) \<le> Suc (holeCount r)"
  proof (cases "findIndex (\<lambda>x. Some (seat x) = s) (players r)")
    case None
    then show ?thesis by (simp add: dealOne_def Let_def)
  next
    case (Some i)
    then have i: "i < length (players r)" by (simp add: findIndex_Some)
    show ?thesis
      using hole_push_length [OF i, of c]
      by (simp add: dealOne_def Let_def Some p holeCount_def)
  qed
  show "dealFrame r (fst (dealOne (r, s)))"
    by (auto simp: dealOne_def Let_def dealFrame_def p map_upd_same chipView_def split: option.splits)
qed

lemma dealFrame_refl [simp]: "dealFrame r r"
  by (simp add: dealFrame_def)

lemma dealFrame_trans: "dealFrame r r1 \<Longrightarrow> dealFrame r1 r2 \<Longrightarrow> dealFrame r r2"
  by (simp add: dealFrame_def)

lemma dealLoop_inv:
  assumes "cardsOk r" "community r = []" "holeCount r + n \<le> 2 * MAX_PLAYERS"
  shows "cardsOk (fst ((dealOne ^^ n) (r, s)))
       \<and> holeCount (fst ((dealOne ^^ n) (r, s))) \<le> holeCount r + n
       \<and> dealFrame r (fst ((dealOne ^^ n) (r, s)))"
  using assms(3)
proof (induction n)
  case 0
  then show ?case using assms(1) by simp
next
  case (Suc n)
  obtain r1 s1 where e: "(dealOne ^^ n) (r, s) = (r1, s1)" by (cases "(dealOne ^^ n) (r, s)")
  from Suc have ih: "cardsOk r1" "holeCount r1 \<le> holeCount r + n" "dealFrame r r1"
    by (simp_all add: e)
  from ih(3) assms(2) have "community r1 = []" by (simp add: dealFrame_def)
  with cards_length [OF ih(1)] ih(2) Suc.prems have "deck r1 \<noteq> []"
    by (auto simp: MAX_PLAYERS_def)
  from dealOne_inv [OF ih(1) this, of s1] ih(2,3) show ?case
    by (auto simp: e intro: dealFrame_trans)
qed

lemma dealHoleCards_inv:
  assumes "seatsOk r" "cardsOk r" "community r = []" "holeCount r = 0"
  shows "cardsOk (dealHoleCards r)" "holeCount (dealHoleCards r) \<le> 2 * MAX_PLAYERS"
    "dealFrame r (dealHoleCards r)"
proof -
  let ?n = "length (activeSeats r)"
  have n: "?n \<le> MAX_PLAYERS"
    using activeSeats_le [of r] players_le_MAX [OF assms(1)] by simp
  let ?s = "nextActiveSeat r (dealerSeat r) True True True"
  obtain r1 s1 where e1: "(dealOne ^^ ?n) (r, ?s) = (r1, s1)" by (cases "(dealOne ^^ ?n) (r, ?s)")
  obtain r2 s2 where e2: "(dealOne ^^ ?n) (r1, s1) = (r2, s2)" by (cases "(dealOne ^^ ?n) (r1, s1)")
  from dealLoop_inv [OF assms(2,3), of ?n ?s] n assms(4)
  have 1: "cardsOk r1" "holeCount r1 \<le> ?n" "dealFrame r r1" by (simp_all add: e1)
  from 1(3) assms(3) have c1: "community r1 = []" by (simp add: dealFrame_def)
  from dealLoop_inv [OF 1(1) c1, of ?n s1] n 1(2)
  have 2: "cardsOk r2" "holeCount r2 \<le> holeCount r1 + ?n" "dealFrame r1 r2" by (simp_all add: e2)
  have d: "dealHoleCards r = (if ?n < 2 then r else r2)"
    by (simp add: dealHoleCards_def Let_def e1 e2)
  show "cardsOk (dealHoleCards r)" using assms(2) 2(1) by (simp add: d)
  show "holeCount (dealHoleCards r) \<le> 2 * MAX_PLAYERS" using assms(4) 1(2) 2(2) n by (simp add: d)
  show "dealFrame r (dealHoleCards r)" using dealFrame_trans [OF 1(3) 2(3)] by (simp add: d)
qed

lemma dealer_has_chips:
  assumes "2 \<le> length (activeSeats r)"
  defines "r1 \<equiv> (case dealerSeat r of
                       None \<Rightarrow> r\<lparr>dealerSeat := Some (hd (activeSeats r))\<rparr>
                     | Some d \<Rightarrow>
                         if d \<notin> set (activeSeats r) then r\<lparr>dealerSeat := Some (hd (activeSeats r))\<rparr>
                         else r\<lparr>dealerSeat := nextActiveSeat r (dealerSeat r) True True True\<rparr>)"
  shows "players r1 = players r"
    and "dealerSeat r1 = Some d \<Longrightarrow> \<exists>q \<in> set (players r). seat q = d \<and> 0 < stack q"
proof -
  show "players r1 = players r" by (simp add: r1_def split: option.splits)
  assume d: "dealerSeat r1 = Some d"
  from assms(1) have "activeSeats r \<noteq> []" by auto
  then have hd: "hd (activeSeats r) \<in> set (activeSeats r)" by simp
  from d consider "d = hd (activeSeats r)" | "nextActiveSeat r (dealerSeat r) True True True = Some d"
    by (auto simp: r1_def split: option.splits if_splits)
  then show "\<exists>q \<in> set (players r). seat q = d \<and> 0 < stack q"
  proof cases
    case 1
    with hd activeSeats_mem show ?thesis by simp
  next
    case 2
    from nextActiveSeat_Some [OF 2] obtain p where
      "find (\<lambda>x. seat x = d) (players r) = Some p" "0 < stack p" by auto
    then show ?thesis by (auto dest: find_Some_set)
  qed
qed

lemma beginHand_inv:
  assumes "seatsOk r" "beginHand rnd r = Inr r'"
  shows "roomInv r'"
proof (cases "length (activeSeats r) < 2")
  case True
  with assms show ?thesis by (auto simp: beginHand_def roomInv_def)
next
  case False
  define r1 where "r1 = (case dealerSeat r of
                       None \<Rightarrow> r\<lparr>dealerSeat := Some (hd (activeSeats r))\<rparr>
                     | Some d \<Rightarrow>
                         if d \<notin> set (activeSeats r) then r\<lparr>dealerSeat := Some (hd (activeSeats r))\<rparr>
                         else r\<lparr>dealerSeat := nextActiveSeat r (dealerSeat r) True True True\<rparr>)"
  define r2 where "r2 = resetForNewHand rnd r1"
  from False have two: "2 \<le> length (activeSeats r)" by simp
  note dl = dealer_has_chips [OF two, folded r1_def]
  from assms(2) False obtain r3 sb bb where pb: "postBlinds r2 = Inr (r3, Some (sb, bb))"
    and r': "r' = (dealHoleCards r3)\<lparr>currentSeat := firstToActPreflop (dealHoleCards r3) bb\<rparr>"
    by (auto simp: beginHand_def Let_def r1_def [symmetric] r2_def [symmetric]
             split: sum.splits option.splits prod.splits)
  define r4 where "r4 = dealHoleCards r3"
  note rs = resetForNewHand_inv [of rnd r1, folded r2_def]
  note pf = postBlinds_frame [OF pb]
  have s2: "seatsOk r2" using seatsOk_cong [of r2 r] rs(7) dl(1) assms(1) by simp
  have s3: "seatsOk r3" using sameCards_inv(4) [OF pf(1)] s2 by simp
  have c3: "cardsOk r3" "community r3 = []" "holeCount r3 = 0" "stage r3 = Preflop" "state r3 = Hand"
    using sameCards_inv [OF pf(1)] pf(1) rs by (simp_all add: sameCards_def)
  note dh = dealHoleCards_inv [OF s3 c3(1,2,3), folded r4_def]
  from dh(3) have f4: "state r4 = Hand" "stage r4 = Preflop" "community r4 = []"
    "dealerSeat r4 = dealerSeat r3" "map chipView (players r4) = map chipView (players r3)"
    using c3 by (simp_all add: dealFrame_def)
  have seat4: "map seat (players r4) = map seat (players r)"
    using chipView_maps(1) [OF f4(5)] pf(1) rs(7) dl(1) by (simp add: sameCards_def)
  have fold4: "map folded (players r4) = map (\<lambda>p. stack p \<le> 0) (players r)"
    using chipView_maps(2) [OF f4(5)] pf(3) rs(8) dl(1) by simp
  have s4: "seatsOk r4" using seatsOk_cong [OF seat4] assms(1) by simp
  have b4: "bustedFolded r4"
    unfolding r4_def using pf(2) rs(6) postBlinds_committed [OF pb rs(10)]
    by (intro dealHoleCards_busted) simp_all
  have st4: "stageOk r4" using f4 by (simp add: stageOk_def)
  have al: "actorLive r'"
  proof (cases "length (activeSeats r4) = 2")
    case True
    then have cs: "currentSeat r' = dealerSeat r1"
      using f4(4) pf(4) rs(9) by (simp add: r' r4_def [symmetric] firstToActPreflop_def)
    show ?thesis unfolding actorLive_def
    proof (intro ballI impI)
      fix p assume p: "p \<in> set (players r')" and sp: "Some (seat p) = currentSeat r'"
      from p obtain k where k: "k < length (players r4)" "p = players r4 ! k"
        by (auto simp: r' r4_def [symmetric] in_set_conv_nth)
      from seat4 have len: "length (players r4) = length (players r)" by (metis length_map)
      from k len seat4 have sk: "seat p = seat (players r ! k)" by (metis nth_map)
      from k len fold4 have fk: "folded p = (stack (players r ! k) \<le> 0)"
        by (metis (mono_tags, lifting) nth_map)
      from sp cs have "dealerSeat r1 = Some (seat p)" by simp
      from dl(2) [OF this] obtain q where q: "q \<in> set (players r)" "seat q = seat p" "0 < stack q"
        by auto
      have "players r ! k \<in> set (players r)" using k len by simp
      with q sk assms(1) have "players r ! k = q"
        by (metis distinct_map inj_on_def seatsOk_def)
      with q fk show "\<not> folded p" by simp
    qed
  next
    case False
    then have "r' = r4\<lparr>currentSeat := nextActiveSeat r4 bb False False True\<rparr>"
      by (simp add: r' r4_def [symmetric] firstToActPreflop_def)
    then show ?thesis using actorLive_next [of r4 bb False True] s4 by (simp add: seatsOk_def)
  qed
  show ?thesis
    using s4 dh(1,2) st4 b4 al f4(1)
    by (simp add: roomInv_def handInv_def r' r4_def [symmetric] actorLive_def)
qed

subsection \<open>Handlers\<close>

lemma assignSeat_Some:
  "assignSeat r = Some s \<Longrightarrow> s < MAX_PLAYERS \<and> s \<notin> seat ` set (players r)"
  by (auto simp: assignSeat_def dest!: find_Some_set)

lemma hole_newPlayer [simp]: "hole (newPlayer i s b) = []" "seat (newPlayer i s b) = s"
  "folded (newPlayer i s b) = False" "stack (newPlayer i s b) = STARTING_STACK"
  by (simp_all add: newPlayer_def)

lemma addPlayer_inv:
  assumes "roomInv r" "assignSeat r = Some s"
  shows "roomInv (r\<lparr>players := players r @ [newPlayer x s b]\<rparr>)"
proof -
  from assignSeat_Some [OF assms(2)] have s: "s < MAX_PLAYERS" "s \<notin> seat ` set (players r)" by auto
  have 1: "seatsOk (r\<lparr>players := players r @ [newPlayer x s b]\<rparr>)"
    using assms(1) s by (auto simp: roomInv_def seatsOk_def)
  have 2: "handInv (r\<lparr>players := players r @ [newPlayer x s b]\<rparr>)" if "handInv r"
    using that
    by (auto simp: handInv_def cardsOk_def cards_def holeCount_def bustedFolded_def
                   actorLive_def STARTING_STACK_def chipsOk_def newPlayer_def)
  have 3: "cardsOk (r\<lparr>players := players r @ [newPlayer x s b]\<rparr>) = cardsOk r"
    by (simp add: cardsOk_def cards_def)
  show ?thesis using assms(1) 1 2 3 by (simp add: roomInv_def)
qed

lemma roomInv_upd [simp]:
  "roomInv (r\<lparr>hostId := h\<rparr>) = roomInv r" "roomInv (r\<lparr>botTimer := b\<rparr>) = roomInv r"
  "roomInv (r\<lparr>smallBlind := x, bigBlind := y\<rparr>) = roomInv r"
  by (simp_all add: roomInv_def handInv_def)

lemma createLobby_inv: "srvInv srv \<Longrightarrow> srvInv (createLobby sid srv)"
  by (auto simp: createLobby_def srvInv_def roomInv_def seatsOk_def newPlayer_def MAX_PLAYERS_def
           split: option.splits)

lemma joinLobby_inv: "srvInv srv \<Longrightarrow> srvInv (joinLobby sid srv)"
  by (auto simp: joinLobby_def srvInv_def addPlayer_inv split: option.splits)

lemma addBot_inv: "srvInv srv \<Longrightarrow> srvInv (addBot sid botId srv)"
  by (auto simp: addBot_def srvInv_def addPlayer_inv split: option.splits)

lemma setBlinds_inv: "srvInv srv \<Longrightarrow> srvInv (setBlinds sid a b srv)"
  by (auto simp: setBlinds_def srvInv_def Let_def split: option.splits)

lemma chat_inv: "srvInv srv \<Longrightarrow> srvInv (chat sid m srv)"
  by (auto simp: chat_def srvInv_def split: option.splits)

lemma beginHand_roomInv: "roomInv r \<Longrightarrow> beginHand rnd r = Inr r' \<Longrightarrow> roomInv r'"
  using beginHand_inv [of r rnd r'] by (simp add: roomInv_def [of r])

lemma startGame_inv:
  assumes "srvInv srv" "startGame sid rnd srv = Inr srv'"
  shows "srvInv srv'"
proof (cases "rooms srv")
  case None
  with assms show ?thesis by (simp add: startGame_def)
next
  case (Some r)
  with assms(1) have r: "roomInv r" by (simp add: srvInv_def)
  show ?thesis
  proof (cases "sid \<noteq> hostId r \<or> (state r \<noteq> Lobby \<and> state r \<noteq> Showdown)")
    case True
    with assms Some show ?thesis by (auto simp: startGame_def split: if_splits)
  next
    case False
    with assms(2) Some obtain r1 where b: "beginHand rnd r = Inr r1"
      and e: "srv' = srv\<lparr>rooms := Some (broadcastRoom r1)\<rparr>"
      by (auto simp: startGame_def split: sum.splits)
    from beginHand_roomInv [OF r b] show ?thesis by (simp add: e srvInv_def)
  qed
qed

lemma playerAction_inv:
  assumes "srvInv srv"
  shows "srvInv (playerAction sid act amt srv)"
proof (cases "rooms srv")
  case None
  with assms show ?thesis by (simp add: playerAction_def)
next
  case (Some r)
  with assms have r: "roomInv r" by (simp add: srvInv_def)
  show ?thesis
  proof (cases "findIndex (\<lambda>p. pid p = sid) (players r)")
    case None
    with assms Some show ?thesis by (simp add: playerAction_def)
  next
    case (Some i)
    obtain r1 ts where h: "handlePlayerAction r i act amt = (r1, ts)"
      by (cases "handlePlayerAction r i act amt")
    from handlePlayerAction_inv [OF r, of i act amt] h have "roomInv r1" by simp
    with Some \<open>rooms srv = Some r\<close> h show ?thesis
      by (simp add: playerAction_def srvInv_def)
  qed
qed

lemma botAction_inv: "roomInv r0 \<Longrightarrow> roomInv (fst (botAction r0 i c1 c2))"
  by (simp add: botAction_def Let_def handlePlayerAction_inv)

lemma botTimerFires_inv:
  assumes "srvInv srv"
  shows "srvInv (botTimerFires c1 c2 srv)"
proof (cases "rooms srv")
  case None
  with assms show ?thesis by (simp add: botTimerFires_def)
next
  case (Some r)
  with assms have r: "roomInv r" by (simp add: srvInv_def)
  then have r0: "roomInv (r\<lparr>botTimer := False\<rparr>)" by simp
  obtain r1 ts where h: "\<And>i. botAction (r\<lparr>botTimer := False\<rparr>) i c1 c2
      = (fst (botAction (r\<lparr>botTimer := False\<rparr>) i c1 c2), snd (botAction (r\<lparr>botTimer := False\<rparr>) i c1 c2))"
    by simp
  show ?thesis
    using Some r0 assms botAction_inv [OF r0, of _ c1 c2]
    by (auto simp: botTimerFires_def srvInv_def Let_def split: option.splits prod.splits)
       (metis fst_conv)
qed

lemma nextHandTimer_inv:
  assumes "roomInv r" "nextHandTimer rnd v r = Inr r'"
  shows "roomInv r'"
proof -
  define r1 where "r1 = r\<lparr>state := Lobby, stage := Preflop,
                  players := map (\<lambda>pl. pl\<lparr>folded := (if v then stack pl \<le> 0 else False),
                                           allIn := False, betThisRound := 0, committed := 0,
                                           hole := [], hasActed := False\<rparr>) (players r)\<rparr>"
  have "map seat (players r1) = map seat (players r)" by (simp add: r1_def comp_def)
  from seatsOk_cong [OF this] assms(1) have s1: "seatsOk r1" by (simp add: roomInv_def)
  show ?thesis
  proof (cases "2 \<le> length (activeSeats r1)")
    case True
    with assms(2) obtain r2 where b: "beginHand rnd (r1\<lparr>state := Hand\<rparr>) = Inr r2"
      and e: "r' = broadcastRoom r2"
      by (auto simp: nextHandTimer_def Let_def r1_def [symmetric] split: sum.splits)
    from s1 have "seatsOk (r1\<lparr>state := Hand\<rparr>)" by simp
    from beginHand_inv [OF this b] show ?thesis by (simp add: e)
  next
    case False
    with assms(2) have e: "r' = broadcastRoom r1"
      by (auto simp: nextHandTimer_def Let_def r1_def [symmetric])
    have "state r1 = Lobby" by (simp add: r1_def)
    with s1 show ?thesis by (simp add: e) (simp add: roomInv_def)
  qed
qed

lemma timerFires_inv:
  assumes "srvInv srv" "timerFires H k rnd srv = Inr srv'"
  shows "srvInv srv'"
proof (cases "k \<ge> length (timers srv)")
  case True
  with assms show ?thesis by (simp add: timerFires_def)
next
  case k: False
  show ?thesis
  proof (cases "rooms srv")
    case None
    with assms k show ?thesis by (auto simp: timerFires_def Let_def srvInv_def)
  next
    case (Some r)
    with assms(1) have r: "roomInv r" by (simp add: srvInv_def)
    show ?thesis
    proof (cases "timers srv ! k")
      case (ShowdownTimer v)
      from r have "roomInv (fst (showdownTimer H v r))"
        by (intro showdownTimer_inv) (simp add: roomInv_def)
      with assms(2) k Some ShowdownTimer show ?thesis
        by (auto simp: timerFires_def Let_def srvInv_def split: prod.splits)
    next
      case (NextHandTimer v)
      with assms(2) k Some obtain r1 where n: "nextHandTimer rnd v r = Inr r1"
        and e: "rooms srv' = Some r1"
        by (auto simp: timerFires_def Let_def split: sum.splits)
      from nextHandTimer_inv [OF r n] e show ?thesis by (simp add: srvInv_def)
    qed
  qed
qed

lemma actorLive_view:
  "actorLive r = (\<forall>x \<in> set (map chipView (players r)).
        Some (fst x) = currentSeat r \<longrightarrow> \<not> snd (snd (snd x)))"
  by (auto simp: actorLive_def chipView_def)

lemma actorLive_cong:
  "map chipView (players r') = map chipView (players r) \<Longrightarrow> currentSeat r' = currentSeat r
    \<Longrightarrow> actorLive r' = actorLive r"
  by (simp only: actorLive_view)

lemma resolveShowdown_state: "state (resolveShowdown H r) = state r"
proof -
  have "\<And>kvs r. state (fold applyPayout kvs r) = state r"
  proof -
    fix kvs r show "state (fold applyPayout kvs r) = state r"
      by (induction kvs arbitrary: r) (simp_all add: applyPayout_state)
  qed
  then show ?thesis by (simp add: resolveShowdown_def Let_def)
qed

lemma leaveOrFold_inv:
  assumes i0: "roomInv r0"
  shows "roomInv (fst (leaveOrFold H idx r0))"
proof (cases "state r0 = Lobby")
  case True
  have "distinct (map seat (take idx (players r0) @ drop (Suc idx) (players r0)))"
    using i0 distinct_take [of "map seat (players r0)" idx]
      distinct_drop [of "map seat (players r0)" "Suc idx"]
      set_take_disj_set_drop_if_distinct [of "map seat (players r0)" idx "Suc idx"]
    by (auto simp: roomInv_def seatsOk_def take_map drop_map)
  moreover have "\<forall>q \<in> set (take idx (players r0) @ drop (Suc idx) (players r0)). seat q < MAX_PLAYERS"
    using i0 by (auto simp: roomInv_def seatsOk_def dest: in_set_takeD in_set_dropD)
  ultimately show ?thesis using True by (simp add: leaveOrFold_def roomInv_def seatsOk_def)
next
  case nl: False
  define p where "p = players r0 ! idx"
  show ?thesis
  proof (cases "state r0 = Hand \<and> currentSeat r0 = Some (seat p) \<and> \<not> folded p \<and> \<not> allIn p")
    case False
    with nl i0 show ?thesis by (auto simp: leaveOrFold_def p_def)
  next
    case True
    define r' where "r' = r0\<lparr>players := (players r0)[idx := (players r0 ! idx)\<lparr>folded := True, hasActed := True\<rparr>]\<rparr>"
    from True i0 have h0: "seatsOk r0" "handInv r0" by (simp_all add: roomInv_def)
    have sc: "sameCards r0 r'" by (simp add: r'_def sameCards_def map_upd_same2)
    have bf: "bustedFolded r'"
      unfolding bustedFolded_def r'_def
      by (simp, rule ball_upd)
         (use h0(2) in \<open>auto simp: handInv_def bustedFolded_def intro: chipsOk_fold\<close>)
    from sameCards_inv [OF sc] sc h0 True bf
    have h': "seatsOk r'" "state r' = Hand" "cardsOk r'" "stageOk r'" "holeCount r' \<le> 2 * MAX_PLAYERS"
      "bustedFolded r'"
      by (simp_all add: handInv_def sameCards_def)
    have e: "leaveOrFold H idx r0 = (case loneSurvivor r' of
                              Some j \<Rightarrow> awardPotTo r' j
                            | None \<Rightarrow>
                                if shouldEndBettingRound r'
                                then (let (r'', ts') = advanceStage r'
                                      in if state r'' = Reveal
                                         then (broadcastRoom r'', ts' @ [ShowdownTimer False])
                                         else if state r'' = Showdown
                                         then (resolveShowdown H r'', ts')
                                         else (r'', ts'))
                                else (moveToNextActor r', []))"
      unfolding leaveOrFold_def r'_def using True nl by (simp add: Let_def p_def)
    show ?thesis
    proof (cases "loneSurvivor r'")
      case (Some j)
      with awardPotTo_roomInv [OF h'(1,3), of j] show ?thesis by (simp add: e)
    next
      case None
      show ?thesis
      proof (cases "shouldEndBettingRound r'")
        case False
        have scm: "sameCards r' (moveToNextActor r')" by (rule moveToNextActor_inv(1))
        show ?thesis
          using None False h' sameCards_inv [OF scm] moveToNextActor_inv(2,3) [of r'] scm
          by (simp add: e roomInv_def handInv_def sameCards_def)
      next
        case True
        obtain r'' ts' where a: "advanceStage r' = (r'', ts')" by (cases "advanceStage r'")
        from advanceStage_inv [OF h'] a have i'': "roomInv r''" by simp
        have "roomInv (resolveShowdown H r'')" if "state r'' = Showdown"
          using that i'' seatsOk_cong [OF resolveShowdown_seat, of H r'']
          by (simp add: roomInv_def resolveShowdown_state)
        with i'' show ?thesis using None True by (simp add: e a)
      qed
    qed
  qed
qed

lemma disconnect_inv:
  assumes "srvInv srv"
  shows "srvInv (disconnect H sid srv)"
proof (cases "rooms srv")
  case None
  with assms show ?thesis by (simp add: disconnect_def)
next
  case (Some r)
  with assms have r: "roomInv r" by (simp add: srvInv_def)
  show ?thesis
  proof (cases "findIndex (\<lambda>p. pid p = sid) (players r)")
    case None
    with assms Some show ?thesis by (simp add: disconnect_def)
  next
    case (Some idx)
    define r0 where "r0 = r\<lparr>players := (players r)[idx := (players r ! idx)\<lparr>connected := False\<rparr>]\<rparr>"
    have v0: "map chipView (players r0) = map chipView (players r)"
      "map hole (players r0) = map hole (players r)"
      "map chipsOk (players r0) = map chipsOk (players r)"
      by (simp_all add: r0_def map_upd_same chipView_def)
    have sc0: "sameCards r r0"
      using v0 chipView_maps(1) [OF v0(1)] by (simp add: sameCards_def) (simp add: r0_def)
    have cs0: "currentSeat r0 = currentSeat r" by (simp add: r0_def)
    have i0: "roomInv r0"
      using r sameCards_inv [OF sc0] bustedFolded_cong [OF v0(3)] actorLive_cong [OF v0(1) cs0] sc0
      by (simp add: roomInv_def handInv_def sameCards_def)
    obtain r1 ts where rt: "leaveOrFold H idx r0 = (r1, ts)" by (cases "leaveOrFold H idx r0")
    with leaveOrFold_inv [OF i0, of H idx] have r1: "roomInv r1" by simp
    show ?thesis using r1 \<open>rooms srv = Some r\<close> Some rt
      by (simp add: disconnect_def Let_def r0_def [symmetric] srvInv_def)
  qed
qed

lemma step_inv:
  assumes "srvInv srv" "step H ev srv = Inr srv'"
  shows "srvInv srv'"
proof (cases ev)
  case (CreateLobby sid)
  with assms createLobby_inv [of srv sid] show ?thesis by (simp add: step_def)
next
  case (JoinLobby sid)
  with assms joinLobby_inv [of srv sid] show ?thesis by (simp add: step_def)
next
  case (SetBlinds sid a b)
  with assms setBlinds_inv [of srv sid a b] show ?thesis by (simp add: step_def)
next
  case (StartGame sid rnd)
  with assms startGame_inv [of srv sid rnd srv'] show ?thesis by (simp add: step_def)
next
  case (AddBot sid botId)
  with assms addBot_inv [of srv sid botId] show ?thesis by (simp add: step_def)
next
  case (Chat sid m)
  with assms chat_inv [of srv sid m] show ?thesis by (simp add: step_def)
next
  case (PlayerAction sid act amt)
  with assms playerAction_inv [of srv sid act amt] show ?thesis by (simp add: step_def)
next
  case (Disconnect sid)
  with assms disconnect_inv [of srv H sid] show ?thesis by (simp add: step_def)
next
  case (TimerFires k rnd)
  with assms timerFires_inv [of srv H k rnd srv'] show ?thesis by (simp add: step_def)
next
  case (BotTimerFires c1 c2)
  with assms botTimerFires_inv [of srv c1 c2] show ?thesis by (simp add: step_def)
qed

lemma run_inv: "srvInv srv \<Longrightarrow> run H evs srv = Inr srv' \<Longrightarrow> srvInv srv'"
proof (induction evs arbitrary: srv)
  case Nil
  then show ?case by simp
next
  case (Cons ev evs)
  from Cons.prems(2) obtain s1 where s: "step H ev srv = Inr s1" and r: "run H evs s1 = Inr srv'"
    by (auto split: sum.splits)
  from step_inv [OF Cons.prems(1) s] have "srvInv s1" .
  from Cons.IH [OF this r] show ?case .
qed

lemma reachable_inv: "reachable H srv \<Longrightarrow> srvInv srv"
proof -
  assume "reachable H srv"
  then obtain evs where "run H evs initServer = Inr srv" by (auto simp: reachable_def)
  moreover have "srvInv initServer" by (simp add: srvInv_def initServer_def)
  ultimately show ?thesis by (rule run_inv [rotated])
qed

section \<open>Two hands played out\<close>

text \<open>Each event of the two hands, evaluated on the state before it.\<close>

lemma lobby_AB: "joinLobby ''B'' (createLobby ''A'' initServer) = \<lparr>rooms = Some lobbyAB, timers = []\<rparr>"
  by code_simp

lemma start_headsUp:
  "startGame ''A'' (\<lambda>i. i) \<lparr>rooms = Some lobbyAB, timers = []\<rparr> = Inr \<lparr>rooms = Some headsUp, timers = []\<rparr>"
  by code_simp

lemma fold_headsUp:
  "playerAction ''B'' Fold 0 \<lparr>rooms = Some headsUp, timers = []\<rparr>
     = \<lparr>rooms = Some afterFold, timers = [ShowdownTimer True]\<rparr>"
  by code_simp

lemma showdown_afterFold:
  "timerFires highCardLib 0 (\<lambda>i. i) \<lparr>rooms = Some afterFold, timers = [ShowdownTimer True]\<rparr>
     = Inr \<lparr>rooms = Some paidTwice, timers = [NextHandTimer True]\<rparr>"
  by code_simp

lemma start_headsUpB:
  "startGame ''A'' rndB \<lparr>rooms = Some lobbyAB, timers = []\<rparr> = Inr \<lparr>rooms = Some headsUpB, timers = []\<rparr>"
  by code_simp

lemma allIn_headsUpB:
  "playerAction ''B'' AllIn 0 \<lparr>rooms = Some headsUpB, timers = []\<rparr>
     = \<lparr>rooms = Some allInB, timers = []\<rparr>"
  by code_simp

lemma call_allInB:
  "playerAction ''A'' Call 0 \<lparr>rooms = Some allInB, timers = []\<rparr>
     = \<lparr>rooms = Some revealB, timers = [ShowdownTimer True]\<rparr>"
  by code_simp

lemma showdown_revealB:
  "timerFires highCardLib 0 (\<lambda>i. i) \<lparr>rooms = Some revealB, timers = [ShowdownTimer True]\<rparr>
     = Inr \<lparr>rooms = Some showdownB, timers = [NextHandTimer True]\<rparr>"
  by code_simp

lemma nextHand_showdownB:
  "timerFires highCardLib 0 (\<lambda>i. i) \<lparr>rooms = Some showdownB, timers = [NextHandTimer True]\<rparr>
     = Inr \<lparr>rooms = Some bustedLobby, timers = []\<rparr>"
  by code_simp

lemma fold_run:
  "run highCardLib foldEvents initServer = Inr \<lparr>rooms = Some afterFold, timers = [ShowdownTimer True]\<rparr>"
  by (simp add: foldEvents_def step_def lobby_AB start_headsUp fold_headsUp)

lemma fold_run2:
  "run highCardLib (foldEvents @ [TimerFires 0 (\<lambda>i. i)]) initServer = Inr \<lparr>rooms = Some paidTwice, timers = [NextHandTimer True]\<rparr>"
  by (simp add: foldEvents_def step_def lobby_AB start_headsUp fold_headsUp showdown_afterFold)

lemma start_run:
  "run highCardLib (take 3 foldEvents) initServer = Inr \<lparr>rooms = Some headsUp, timers = []\<rparr>"
  by (simp add: foldEvents_def step_def lobby_AB start_headsUp)

lemma allIn_run:
  "run highCardLib (take 4 bustEvents) initServer = Inr \<lparr>rooms = Some allInB, timers = []\<rparr>"
  by (simp add: bustEvents_def step_def lobby_AB start_headsUpB allIn_headsUpB)


lemma bust_run:
  "run highCardLib bustEvents initServer = Inr \<lparr>rooms = Some bustedLobby, timers = []\<rparr>"
  by (simp add: bustEvents_def step_def lobby_AB start_headsUpB allIn_headsUpB call_allInB
      showdown_revealB nextHand_showdownB)

section \<open>Properties of reachable states\<close>



lemma reachable_handInv:
  assumes "reachable H srv" "rooms srv = Some r" "state r = Hand"
  shows "handInv r"
  using reachable_inv [OF assms(1)] assms(2,3) by (simp add: srvInv_def roomInv_def)




lemma reachable_allInB: "reachable highCardLib \<lparr>rooms = Some allInB, timers = []\<rparr>"
  unfolding reachable_def using allIn_run by blast


lemma reachable_bustedLobby: "reachable highCardLib \<lparr>rooms = Some bustedLobby, timers = []\<rparr>"
  unfolding reachable_def using bust_run by blast


text \<open>
  Claim C8 as stated fails: after the hand in which \<open>B\<close> loses all chips, the table is
  back in the lobby, \<open>B\<close> has a stack of 0, and \<open>B\<close> is not all-in (the reset for the next
  hand has cleared the flag and marked \<open>B\<close> as folded).
\<close>

theorem busted_not_allIn_counterexample:
  "reachable highCardLib \<lparr>rooms = Some bustedLobby, timers = []\<rparr>
   \<and> players bustedLobby ! 1 \<in> set (players bustedLobby)
   \<and> stack (players bustedLobby ! 1) = 0 \<and> \<not> allIn (players bustedLobby ! 1)"
  using reachable_bustedLobby by (simp add: bustedLobby_def seated_def)

text \<open>
  Claim C8, amended.  In every reachable state in which a hand is in progress, every
  player whose stack is 0 (or less) is all-in or folded.
\<close>

theorem busted_allIn_or_folded:
  assumes "reachable H srv" "rooms srv = Some r" "state r = Hand"
    "p \<in> set (players r)" "stack p \<le> 0"
  shows "allIn p \<or> folded p"
proof -
  from reachable_handInv [OF assms(1,2,3)] have "bustedFolded r" by (simp add: handInv_def)
  with assms(4,5) show ?thesis by (simp add: bustedFolded_def chipsOk_def)
qed

text \<open>\<open>B\<close> right after going all-in: a stack of 0, all-in and not folded.\<close>

theorem busted_allIn_or_folded_witness:
  "reachable highCardLib \<lparr>rooms = Some allInB, timers = []\<rparr> \<and> state allInB = Hand
   \<and> players allInB ! 1 \<in> set (players allInB) \<and> stack (players allInB ! 1) = 0
   \<and> allIn (players allInB ! 1) \<and> \<not> folded (players allInB ! 1)
   \<and> (allIn (players allInB ! 1) \<or> folded (players allInB ! 1))"
proof -
  have s: "state allInB = Hand" "players allInB ! 1 \<in> set (players allInB)"
    "stack (players allInB ! 1) \<le> 0"
    by (simp_all add: allInB_def headsUpB_def headsUp_def seated_def)
  have "rooms \<lparr>rooms = Some allInB, timers = []\<rparr> = Some allInB" by simp
  from busted_allIn_or_folded [OF reachable_allInB this s]
  have "allIn (players allInB ! 1) \<or> folded (players allInB ! 1)" .
  moreover have "stack (players allInB ! 1) = 0" "allIn (players allInB ! 1)"
    "\<not> folded (players allInB ! 1)"
    by (simp_all add: allInB_def seated_def)
  ultimately show ?thesis using s reachable_allInB by simp
qed

section \<open>The pot of a hand won by a fold\<close>

text \<open>
  Claim C1 does not hold of the code.  \<open>A\<close> and \<open>B\<close> start the hand with 4000 chips
  between them; after the blinds the stacks and the pot are 4000; \<open>B\<close> folds and
  \<open>awardPotTo\<close> pays the pot of 30 to \<open>A\<close>, which makes the stacks 4000; then the timer
  that \<open>awardPotTo\<close> has armed runs \<open>resolveShowdown\<close>, which pays the side pots built
  from the committed chips to \<open>A\<close> once more, and the stacks are 4030.
\<close>

theorem fold_win_breaks_conservation:
  "run highCardLib (foldEvents @ [TimerFires 0 (\<lambda>i. i)]) initServer
     = Inr \<lparr>rooms = Some paidTwice, timers = [NextHandTimer True]\<rparr>
   \<and> run highCardLib (take 2 foldEvents) initServer = Inr \<lparr>rooms = Some lobbyAB, timers = []\<rparr>
   \<and> run highCardLib (take 3 foldEvents) initServer = Inr \<lparr>rooms = Some headsUp, timers = []\<rparr>
   \<and> run highCardLib foldEvents initServer
        = Inr \<lparr>rooms = Some afterFold, timers = [ShowdownTimer True]\<rparr>
   \<and> sum_list (map stack (players lobbyAB)) = 4000
   \<and> sum_list (map stack (players headsUp)) + pot headsUp = 4000
   \<and> sum_list (map stack (players afterFold)) = 4000
   \<and> sum_list (map stack (players paidTwice)) = 4030"
proof -
  have "run highCardLib (take 2 foldEvents) initServer = Inr \<lparr>rooms = Some lobbyAB, timers = []\<rparr>"
    by (simp add: foldEvents_def step_def lobby_AB)
  moreover have "sum_list (map stack (players lobbyAB)) = 4000"
    "sum_list (map stack (players headsUp)) + pot headsUp = 4000"
    "sum_list (map stack (players afterFold)) = 4000"
    "sum_list (map stack (players paidTwice)) = 4030"
    by (simp_all add: lobbyAB_def headsUp_def afterFold_def paidTwice_def seated_def)
  ultimately show ?thesis using fold_run fold_run2 start_run by simp
qed

text \<open>
  Claim C5 does not hold of the code.  When \<open>B\<close> folds, \<open>A\<close> is the only player who has
  not folded and \<open>handlePlayerAction\<close> raises \<open>A\<close>'s stack by the pot, from 1980 to 2010.
  The timer it arms then runs \<open>resolveShowdown\<close>, which hands \<open>A\<close>'s cards to the
  evaluator and pays \<open>A\<close> the two side pots of 20 and 10 as well: \<open>A\<close> ends with 2040, the
  pot twice over.
\<close>

theorem lone_survivor_paid_twice:
  "handlePlayerAction headsUp 1 Fold 0 = (afterFold, [ShowdownTimer True])
   \<and> map folded (players afterFold) = [False, True]
   \<and> stack (players headsUp ! 0) = 1980 \<and> pot headsUp = 30
   \<and> stack (players afterFold ! 0) = 2010
   \<and> showdownTimer highCardLib True afterFold = (paidTwice, [NextHandTimer True])
   \<and> solvedById highCardLib afterFold ''A'' = Some (solve highCardLib [Some ''Ac'', Some ''Ah''])
   \<and> buildSidePots (players afterFold) = [\<lparr>amount = 20, eligible = [''A'']\<rparr>, \<lparr>amount = 10, eligible = [''A'']\<rparr>]
   \<and> stack (players paidTwice ! 0) = 2040"
proof -
  have "handlePlayerAction headsUp 1 Fold 0 = (afterFold, [ShowdownTimer True])" by code_simp
  moreover have "showdownTimer highCardLib True afterFold = (paidTwice, [NextHandTimer True])"
    by code_simp
  moreover have "solvedById highCardLib afterFold ''A'' = Some (solve highCardLib [Some ''Ac'', Some ''Ah''])"
    by (simp add: solvedById_def afterFold_def headsUp_def lobbyAB_def seated_def)
  moreover have "buildSidePots (players afterFold) = [\<lparr>amount = 20, eligible = [''A'']\<rparr>, \<lparr>amount = 10, eligible = [''A'']\<rparr>]"
    by code_simp
  moreover have "map folded (players afterFold) = [False, True]"
    "stack (players headsUp ! 0) = 1980" "pot headsUp = 30"
    "stack (players afterFold ! 0) = 2010" "stack (players paidTwice ! 0) = 2040"
    by (simp_all add: lobbyAB_def headsUp_def afterFold_def paidTwice_def seated_def)
  ultimately show ?thesis by simp
qed

end
